theory Spec2Isabelle
  imports Main
begin

section \<open>Python containers\<close>

text \<open>
  The program (\<^verbatim>\<open>src/Q2.py\<close>) keeps its state in Python dictionaries and sets.
  A dictionary iterates in insertion order, and two methods of the program iterate over
  one (\<^verbatim>\<open>list_incoming_adjacent_vertices\<close>, \<^verbatim>\<open>get_all_users\<close>), so a dictionary is an
  association list in insertion order. A subscript \<^verbatim>\<open>d[k]\<close> on a missing key and
  \<^verbatim>\<open>s.remove(x)\<close> on a missing element raise \<^verbatim>\<open>KeyError\<close>: both are results of
  the model.
\<close>

datatype py_error = KeyError

type_synonym ('k, 'v) dict = "('k \<times> 'v) list"

text \<open>\<^verbatim>\<open>k in d\<close>\<close>

definition dict_in :: "'k \<Rightarrow> ('k, 'v) dict \<Rightarrow> bool" where
  "dict_in k d = (k \<in> set (map fst d))"

text \<open>\<^verbatim>\<open>d.get(k)\<close>: \<open>None\<close> is Python's \<^verbatim>\<open>None\<close>.\<close>

definition dict_get :: "('k, 'v) dict \<Rightarrow> 'k \<Rightarrow> 'v option" where
  "dict_get d k = map_of d k"

text \<open>\<^verbatim>\<open>d[k]\<close> read.\<close>

definition dict_getitem :: "('k, 'v) dict \<Rightarrow> 'k \<Rightarrow> py_error + 'v" where
  "dict_getitem d k = (case map_of d k of None \<Rightarrow> Inl KeyError | Some v \<Rightarrow> Inr v)"

text \<open>
  \<^verbatim>\<open>d[k] = v\<close>: an existing key keeps its place and gets the new value, a new key goes
  to the end.
\<close>

fun dict_setitem :: "'k \<Rightarrow> 'v \<Rightarrow> ('k, 'v) dict \<Rightarrow> ('k, 'v) dict" where
  "dict_setitem k v [] = [(k, v)]"
| "dict_setitem k v ((k', v') # d) =
     (if k' = k then (k, v) # d else (k', v') # dict_setitem k v d)"

text \<open>\<^verbatim>\<open>list(d.keys())\<close> and \<^verbatim>\<open>list(d.values())\<close>\<close>

definition dict_keys :: "('k, 'v) dict \<Rightarrow> 'k list" where
  "dict_keys d = map fst d"

definition dict_values :: "('k, 'v) dict \<Rightarrow> 'v list" where
  "dict_values d = map snd d"

text \<open>
  A Python set is the list of its elements. Python leaves the iteration order of a set
  open; the model lists the elements in the order they were added, and every statement
  below about the content of a set is about \<open>set xs\<close> only.
  \<^verbatim>\<open>s.add(x)\<close> leaves a set that has \<open>x\<close> as it is; \<^verbatim>\<open>s.remove(x)\<close> raises
  \<^verbatim>\<open>KeyError\<close> when \<open>x\<close> is not a member.
\<close>

definition pyset_add :: "'a \<Rightarrow> 'a list \<Rightarrow> 'a list" where
  "pyset_add x xs = (if x \<in> set xs then xs else xs @ [x])"

definition pyset_remove :: "'a \<Rightarrow> 'a list \<Rightarrow> py_error + 'a list" where
  "pyset_remove x xs = (if x \<in> set xs then Inr (removeAll x xs) else Inl KeyError)"

text \<open>
  That no key occurs twice holds of every dictionary; of an association list it is a
  condition.
\<close>

definition dict_ok :: "('k, 'v) dict \<Rightarrow> bool" where
  "dict_ok d = distinct (map fst d)"

section \<open>DirectedGraph\<close>

text \<open>
  The two dictionaries of the class. The payload of a vertex is any Python value,
  \<^verbatim>\<open>None\<close> by default: \<open>'v option\<close>, with \<open>None\<close> for \<^verbatim>\<open>None\<close>.
\<close>

record ('k, 'v) DirectedGraph =
  adjacency_list :: "('k, 'k list) dict"
  vertices :: "('k, 'v option) dict"

definition DirectedGraph_init :: "('k, 'v) DirectedGraph" where
  "DirectedGraph_init = \<lparr>adjacency_list = [], vertices = []\<rparr>"

definition add_vertex ::
  "('k, 'v) DirectedGraph \<Rightarrow> 'k \<Rightarrow> 'v option \<Rightarrow> bool \<times> ('k, 'v) DirectedGraph" where
  "add_vertex g vertex_id vertex_data =
     (if dict_in vertex_id (vertices g) then (False, g)
      else (True, g\<lparr>vertices := dict_setitem vertex_id vertex_data (vertices g),
                     adjacency_list := dict_setitem vertex_id [] (adjacency_list g)\<rparr>))"

text \<open>
  \<^verbatim>\<open>self._adjacency_list[from_vertex]\<close> is read for the membership test and again
  for the update, with no write in between: one lookup in the model.
\<close>

definition add_edge ::
  "('k, 'v) DirectedGraph \<Rightarrow> 'k \<Rightarrow> 'k \<Rightarrow> py_error + bool \<times> ('k, 'v) DirectedGraph" where
  "add_edge g from_vertex to_vertex =
     (if \<not> dict_in from_vertex (vertices g) \<or> \<not> dict_in to_vertex (vertices g)
      then Inr (False, g)
      else case dict_getitem (adjacency_list g) from_vertex of
        Inl e \<Rightarrow> Inl e
      | Inr adjacents \<Rightarrow>
          if to_vertex \<in> set adjacents then Inr (False, g)
          else Inr (True, g\<lparr>adjacency_list :=
                 dict_setitem from_vertex (pyset_add to_vertex adjacents) (adjacency_list g)\<rparr>))"

definition remove_edge ::
  "('k, 'v) DirectedGraph \<Rightarrow> 'k \<Rightarrow> 'k \<Rightarrow> py_error + bool \<times> ('k, 'v) DirectedGraph" where
  "remove_edge g from_vertex to_vertex =
     (if \<not> dict_in from_vertex (vertices g) \<or> \<not> dict_in to_vertex (vertices g)
      then Inr (False, g)
      else case dict_getitem (adjacency_list g) from_vertex of
        Inl e \<Rightarrow> Inl e
      | Inr adjacents \<Rightarrow>
          if to_vertex \<notin> set adjacents then Inr (False, g)
          else (case pyset_remove to_vertex adjacents of
                  Inl e \<Rightarrow> Inl e
                | Inr adjacents' \<Rightarrow>
                    Inr (True, g\<lparr>adjacency_list :=
                           dict_setitem from_vertex adjacents' (adjacency_list g)\<rparr>)))"

definition list_outgoing_adjacent_vertices ::
  "('k, 'v) DirectedGraph \<Rightarrow> 'k \<Rightarrow> py_error + 'k list" where
  "list_outgoing_adjacent_vertices g vertex =
     (if \<not> dict_in vertex (vertices g) then Inr []
      else dict_getitem (adjacency_list g) vertex)"

text \<open>The loop over \<^verbatim>\<open>self._adjacency_list.items()\<close>, with its accumulator.\<close>

fun incoming_loop :: "'k \<Rightarrow> ('k, 'k list) dict \<Rightarrow> 'k list \<Rightarrow> 'k list" where
  "incoming_loop vertex [] incoming = incoming"
| "incoming_loop vertex ((v, adjacents) # items) incoming =
     incoming_loop vertex items
       (if vertex \<in> set adjacents then incoming @ [v] else incoming)"

definition list_incoming_adjacent_vertices ::
  "('k, 'v) DirectedGraph \<Rightarrow> 'k \<Rightarrow> 'k list" where
  "list_incoming_adjacent_vertices g vertex =
     (if \<not> dict_in vertex (vertices g) then []
      else incoming_loop vertex (adjacency_list g) [])"

text \<open>
  \<^verbatim>\<open>self._vertices.get(vertex_id)\<close>: \<^verbatim>\<open>None\<close> for an unknown id, and for a
  vertex whose payload is \<^verbatim>\<open>None\<close>.
\<close>

definition get_vertex_data :: "('k, 'v) DirectedGraph \<Rightarrow> 'k \<Rightarrow> 'v option" where
  "get_vertex_data g vertex_id =
     (case dict_get (vertices g) vertex_id of None \<Rightarrow> None | Some d \<Rightarrow> d)"

definition get_all_vertices :: "('k, 'v) DirectedGraph \<Rightarrow> 'k list" where
  "get_all_vertices g = dict_keys (vertices g)"

definition vertex_exists :: "('k, 'v) DirectedGraph \<Rightarrow> 'k \<Rightarrow> bool" where
  "vertex_exists g vertex_id = dict_in vertex_id (vertices g)"

section \<open>Privacy and Person\<close>

datatype Privacy = PUBLIC | PRIVATE

text \<open>\<^verbatim>\<open>Privacy.value\<close>\<close>

fun Privacy_value :: "Privacy \<Rightarrow> string" where
  "Privacy_value PUBLIC = ''public''"
| "Privacy_value PRIVATE = ''private''"

record Person =
  user_id :: string
  name :: string
  gender :: string
  biography :: string
  privacy :: Privacy
  age :: "int option"
  location :: string

text \<open>\<^verbatim>\<open>Person.__init__\<close>, every argument given.\<close>

definition Person_init ::
  "string \<Rightarrow> string \<Rightarrow> string \<Rightarrow> string \<Rightarrow> Privacy \<Rightarrow> int option \<Rightarrow> string \<Rightarrow> Person" where
  "Person_init uid nm gd bio pr ag loc =
     \<lparr>user_id = uid, name = nm, gender = gd, biography = bio, privacy = pr, age = ag,
      location = loc\<rparr>"

text \<open>
  The values of the dictionaries that \<^verbatim>\<open>get_public_info\<close> and
  \<^verbatim>\<open>get_full_info\<close> return: strings, an integer or \<^verbatim>\<open>None\<close>.
\<close>

datatype py_value = PStr string | PInt int | PNone

definition py_optional_int :: "int option \<Rightarrow> py_value" where
  "py_optional_int a = (case a of None \<Rightarrow> PNone | Some n \<Rightarrow> PInt n)"

definition get_public_info :: "Person \<Rightarrow> (string, py_value) dict" where
  "get_public_info p = [(''user_id'', PStr (user_id p)), (''name'', PStr (name p))]"

definition get_full_info :: "Person \<Rightarrow> (string, py_value) dict" where
  "get_full_info p =
     [(''user_id'', PStr (user_id p)),
      (''name'', PStr (name p)),
      (''gender'', PStr (gender p)),
      (''biography'', PStr (biography p)),
      (''privacy'', PStr (Privacy_value (privacy p))),
      (''age'', py_optional_int (age p)),
      (''location'', PStr (location p))]"

section \<open>SocialMediaApp\<close>

text \<open>
  \<^verbatim>\<open>add_user\<close> stores one \<^verbatim>\<open>Person\<close> object under the id in \<^verbatim>\<open>self.users\<close> and as
  the payload of the vertex. No method of the three classes writes to a profile, so the
  state holds the value of the profile in both places.
\<close>

record SocialMediaApp =
  graph :: "(string, Person) DirectedGraph"
  users :: "(string, Person) dict"

definition SocialMediaApp_init :: SocialMediaApp where
  "SocialMediaApp_init = \<lparr>graph = DirectedGraph_init, users = []\<rparr>"

definition add_user :: "SocialMediaApp \<Rightarrow> Person \<Rightarrow> bool \<times> SocialMediaApp" where
  "add_user s person =
     (if dict_in (user_id person) (users s) then (False, s)
      else
        let s1 = s\<lparr>users := dict_setitem (user_id person) person (users s)\<rparr>;
            (r, g) = add_vertex (graph s1) (user_id person) (Some person)
        in (r, s1\<lparr>graph := g\<rparr>))"

definition follow_user ::
  "SocialMediaApp \<Rightarrow> string \<Rightarrow> string \<Rightarrow> py_error + bool \<times> SocialMediaApp" where
  "follow_user s follower_id followee_id =
     (if \<not> dict_in follower_id (users s) \<or> \<not> dict_in followee_id (users s)
      then Inr (False, s)
      else case add_edge (graph s) follower_id followee_id of
        Inl e \<Rightarrow> Inl e
      | Inr (r, g) \<Rightarrow> Inr (r, s\<lparr>graph := g\<rparr>))"

definition unfollow_user ::
  "SocialMediaApp \<Rightarrow> string \<Rightarrow> string \<Rightarrow> py_error + bool \<times> SocialMediaApp" where
  "unfollow_user s follower_id followee_id =
     (case remove_edge (graph s) follower_id followee_id of
        Inl e \<Rightarrow> Inl e
      | Inr (r, g) \<Rightarrow> Inr (r, s\<lparr>graph := g\<rparr>))"

text \<open>
  The comprehension \<^verbatim>\<open>[self.users[uid] for uid in ids if uid in self.users]\<close>: the
  subscript is behind the membership test, so it never raises.
\<close>

fun lookup_users :: "(string, Person) dict \<Rightarrow> string list \<Rightarrow> Person list" where
  "lookup_users us [] = []"
| "lookup_users us (uid # ids) =
     (case map_of us uid of
        None \<Rightarrow> lookup_users us ids
      | Some p \<Rightarrow> p # lookup_users us ids)"

definition get_following :: "SocialMediaApp \<Rightarrow> string \<Rightarrow> py_error + Person list" where
  "get_following s uid =
     (case list_outgoing_adjacent_vertices (graph s) uid of
        Inl e \<Rightarrow> Inl e
      | Inr following_ids \<Rightarrow> Inr (lookup_users (users s) following_ids))"

definition get_followers :: "SocialMediaApp \<Rightarrow> string \<Rightarrow> Person list" where
  "get_followers s uid =
     lookup_users (users s) (list_incoming_adjacent_vertices (graph s) uid)"

definition get_all_users :: "SocialMediaApp \<Rightarrow> Person list" where
  "get_all_users s = dict_values (users s)"

definition get_user :: "SocialMediaApp \<Rightarrow> string \<Rightarrow> Person option" where
  "get_user s uid = dict_get (users s) uid"

section \<open>Sequences of calls\<close>

text \<open>
  A caller drives a graph, or the application, by a sequence of method calls. A call that
  raises ends the sequence with the error.
\<close>

datatype ('k, 'v) graph_op =
    AddVertex 'k "'v option"
  | AddEdge 'k 'k
  | RemoveEdge 'k 'k
  | ListOutgoing 'k
  | ListIncoming 'k
  | GetVertexData 'k
  | GetAllVertices
  | VertexExists 'k

datatype ('k, 'v) graph_result = GBool bool | GIds "'k list" | GData "'v option"

fun graph_call ::
  "('k, 'v) DirectedGraph \<Rightarrow> ('k, 'v) graph_op \<Rightarrow>
     py_error + ('k, 'v) graph_result \<times> ('k, 'v) DirectedGraph" where
  "graph_call g (AddVertex k d) = (case add_vertex g k d of (r, g') \<Rightarrow> Inr (GBool r, g'))"
| "graph_call g (AddEdge a b) =
     (case add_edge g a b of Inl e \<Rightarrow> Inl e | Inr (r, g') \<Rightarrow> Inr (GBool r, g'))"
| "graph_call g (RemoveEdge a b) =
     (case remove_edge g a b of Inl e \<Rightarrow> Inl e | Inr (r, g') \<Rightarrow> Inr (GBool r, g'))"
| "graph_call g (ListOutgoing k) =
     (case list_outgoing_adjacent_vertices g k of Inl e \<Rightarrow> Inl e | Inr ks \<Rightarrow> Inr (GIds ks, g))"
| "graph_call g (ListIncoming k) = Inr (GIds (list_incoming_adjacent_vertices g k), g)"
| "graph_call g (GetVertexData k) = Inr (GData (get_vertex_data g k), g)"
| "graph_call g GetAllVertices = Inr (GIds (get_all_vertices g), g)"
| "graph_call g (VertexExists k) = Inr (GBool (vertex_exists g k), g)"

fun graph_calls ::
  "('k, 'v) DirectedGraph \<Rightarrow> ('k, 'v) graph_op list \<Rightarrow>
     py_error + ('k, 'v) graph_result list \<times> ('k, 'v) DirectedGraph" where
  "graph_calls g [] = Inr ([], g)"
| "graph_calls g (c # cs) =
     (case graph_call g c of
        Inl e \<Rightarrow> Inl e
      | Inr (r, g') \<Rightarrow>
          (case graph_calls g' cs of
             Inl e \<Rightarrow> Inl e
           | Inr (rs, g'') \<Rightarrow> Inr (r # rs, g'')))"

datatype app_op =
    AddUser Person
  | FollowUser string string
  | UnfollowUser string string
  | GetFollowing string
  | GetFollowers string
  | GetAllUsers
  | GetUser string

datatype app_result = RBool bool | RPersons "Person list" | RPerson "Person option"

fun app_call :: "SocialMediaApp \<Rightarrow> app_op \<Rightarrow> py_error + app_result \<times> SocialMediaApp" where
  "app_call s (AddUser p) = (case add_user s p of (r, s') \<Rightarrow> Inr (RBool r, s'))"
| "app_call s (FollowUser a b) =
     (case follow_user s a b of Inl e \<Rightarrow> Inl e | Inr (r, s') \<Rightarrow> Inr (RBool r, s'))"
| "app_call s (UnfollowUser a b) =
     (case unfollow_user s a b of Inl e \<Rightarrow> Inl e | Inr (r, s') \<Rightarrow> Inr (RBool r, s'))"
| "app_call s (GetFollowing a) =
     (case get_following s a of Inl e \<Rightarrow> Inl e | Inr ps \<Rightarrow> Inr (RPersons ps, s))"
| "app_call s (GetFollowers a) = Inr (RPersons (get_followers s a), s)"
| "app_call s GetAllUsers = Inr (RPersons (get_all_users s), s)"
| "app_call s (GetUser a) = Inr (RPerson (get_user s a), s)"

fun app_calls ::
  "SocialMediaApp \<Rightarrow> app_op list \<Rightarrow> py_error + app_result list \<times> SocialMediaApp" where
  "app_calls s [] = Inr ([], s)"
| "app_calls s (c # cs) =
     (case app_call s c of
        Inl e \<Rightarrow> Inl e
      | Inr (r, s') \<Rightarrow>
          (case app_calls s' cs of
             Inl e \<Rightarrow> Inl e
           | Inr (rs, s'') \<Rightarrow> Inr (r # rs, s'')))"

section \<open>Invariants and observations\<close>

text \<open>
  The invariant of the graph: the adjacency dictionary and the vertex dictionary have the
  same keys, and every id inside an adjacency set is a key of the vertex dictionary.
\<close>

definition graph_inv :: "('k, 'v) DirectedGraph \<Rightarrow> bool" where
  "graph_inv g =
     (set (dict_keys (adjacency_list g)) = set (dict_keys (vertices g)) \<and>
      (\<forall>(v, adjacents) \<in> set (adjacency_list g).
         set adjacents \<subseteq> set (dict_keys (vertices g))))"

text \<open>The users dictionary and the graph hold the same ids.\<close>

definition lockstep :: "SocialMediaApp \<Rightarrow> bool" where
  "lockstep s = (set (dict_keys (users s)) = set (get_all_vertices (graph s)))"

text \<open>The three association lists of a state are dictionaries.\<close>

definition dicts_ok :: "SocialMediaApp \<Rightarrow> bool" where
  "dicts_ok s =
     (dict_ok (adjacency_list (graph s)) \<and> dict_ok (vertices (graph s)) \<and>
      dict_ok (users s))"

text \<open>What holds of every state the application reaches.\<close>

definition app_inv :: "SocialMediaApp \<Rightarrow> bool" where
  "app_inv s = (lockstep s \<and> graph_inv (graph s) \<and> dicts_ok s)"

text \<open>The edge \<open>(a, b)\<close> exists: \<open>b\<close> is in the adjacency set stored for \<open>a\<close>.\<close>

definition has_edge :: "('k, 'v) DirectedGraph \<Rightarrow> 'k \<Rightarrow> 'k \<Rightarrow> bool" where
  "has_edge g a b =
     (case map_of (adjacency_list g) a of None \<Rightarrow> False | Some adjacents \<Rightarrow> b \<in> set adjacents)"

text \<open>
  A profile, a state, a call and a result with the visibility blanked: two of them are
  equal up to visibility when these are equal.
\<close>

definition hide_privacy :: "Person \<Rightarrow> Person" where
  "hide_privacy p = p\<lparr>privacy := PUBLIC\<rparr>"

definition hide_graph :: "(string, Person) DirectedGraph \<Rightarrow> (string, Person) DirectedGraph" where
  "hide_graph g =
     g\<lparr>vertices := map (\<lambda>(k, d). (k, map_option hide_privacy d)) (vertices g)\<rparr>"

definition hide_app :: "SocialMediaApp \<Rightarrow> SocialMediaApp" where
  "hide_app s =
     \<lparr>graph = hide_graph (graph s),
      users = map (\<lambda>(k, p). (k, hide_privacy p)) (users s)\<rparr>"

fun hide_op :: "app_op \<Rightarrow> app_op" where
  "hide_op (AddUser p) = AddUser (hide_privacy p)"
| "hide_op c = c"

fun hide_result :: "app_result \<Rightarrow> app_result" where
  "hide_result (RBool b) = RBool b"
| "hide_result (RPersons ps) = RPersons (map hide_privacy ps)"
| "hide_result (RPerson po) = RPerson (map_option hide_privacy po)"

text \<open>The boolean a call returned, or the user ids of the profiles it returned.\<close>

fun result_ids :: "app_result \<Rightarrow> bool + string list" where
  "result_ids (RBool b) = Inl b"
| "result_ids (RPersons ps) = Inr (map user_id ps)"
| "result_ids (RPerson None) = Inr []"
| "result_ids (RPerson (Some p)) = Inr [user_id p]"

section \<open>A small run\<close>

text \<open>
  Three users, of whom \<open>a\<close> follows \<open>b\<close> and \<open>c\<close>, and the state the application is in
  after these calls. The theorems below are applied to it.
\<close>

definition person_a :: Person where
  "person_a = Person_init ''a'' ''Ann'' ''F'' ''reads'' PUBLIC (Some 28) ''Oslo''"

definition person_b :: Person where
  "person_b = Person_init ''b'' ''Bob'' ''M'' [] PRIVATE None []"

definition person_c :: Person where
  "person_c = Person_init ''c'' ''Cy'' [] ''runs'' PRIVATE (Some 31) ''Rome''"

definition scenario_calls :: "app_op list" where
  "scenario_calls =
     [AddUser person_a, AddUser person_b, AddUser person_c,
      FollowUser ''a'' ''b'', FollowUser ''a'' ''c'']"

definition scenario_graph :: "(string, Person) DirectedGraph" where
  "scenario_graph =
     \<lparr>adjacency_list = [(''a'', [''b'', ''c'']), (''b'', []), (''c'', [])],
      vertices = [(''a'', Some person_a), (''b'', Some person_b), (''c'', Some person_c)]\<rparr>"

definition scenario_app :: SocialMediaApp where
  "scenario_app =
     \<lparr>graph = scenario_graph,
      users = [(''a'', person_a), (''b'', person_b), (''c'', person_c)]\<rparr>"

section \<open>Dictionaries and sets: basic facts\<close>

lemma map_of_dict_setitem: "map_of (dict_setitem k v d) = (map_of d)(k \<mapsto> v)"
  by (induction d) (auto simp: fun_eq_iff)

lemma keys_list_dict_setitem:
  "map fst (dict_setitem k v d) =
     (if k \<in> set (map fst d) then map fst d else map fst d @ [k])"
proof (induction d)
  case Nil
  show ?case by simp
next
  case (Cons e d)
  obtain k' v' where e: "e = (k', v')" by (cases e)
  show ?case using Cons by (simp add: e)
qed

lemma keys_dict_setitem: "set (map fst (dict_setitem k v d)) = insert k (set (map fst d))"
  by (simp only: keys_list_dict_setitem) auto

lemma dict_ok_setitem: "dict_ok d \<Longrightarrow> dict_ok (dict_setitem k v d)"
  by (simp add: dict_ok_def keys_list_dict_setitem del: set_map)

lemma set_dict_setitem_subset: "set (dict_setitem k v d) \<subseteq> insert (k, v) (set d)"
  by (induction d) (auto split: if_splits)

lemma dict_in_iff: "dict_in k d \<longleftrightarrow> map_of d k \<noteq> None"
  by (simp add: dict_in_def map_of_eq_None_iff)

lemma dict_getitem_Inr_iff: "dict_getitem d k = Inr v \<longleftrightarrow> map_of d k = Some v"
  by (simp add: dict_getitem_def split: option.splits)

lemma dict_getitem_Inl_iff: "dict_getitem d k = Inl e \<longleftrightarrow> \<not> dict_in k d"
  by (cases e) (simp add: dict_getitem_def dict_in_iff split: option.splits)

lemma incoming_loop_eq:
  "incoming_loop x items acc =
     acc @ map fst (filter (\<lambda>(v, adjacents). x \<in> set adjacents) items)"
  by (induction items arbitrary: acc) auto

section \<open>The graph: what the mutators return, and the invariant\<close>

lemma set_pyset_add: "set (pyset_add x xs) = insert x (set xs)"
  by (auto simp: pyset_add_def)

lemma add_edge_True:
  "add_edge g a b = Inr (True, g') \<Longrightarrow>
     dict_in a (vertices g) \<and> dict_in b (vertices g) \<and>
     (\<exists>adjacents. map_of (adjacency_list g) a = Some adjacents \<and> b \<notin> set adjacents \<and>
        g' = g\<lparr>adjacency_list := dict_setitem a (adjacents @ [b]) (adjacency_list g)\<rparr>)"
  by (simp add: add_edge_def dict_getitem_def pyset_add_def split: if_splits option.splits)

lemma add_edge_False: "add_edge g a b = Inr (False, g') \<Longrightarrow> g' = g"
  by (simp add: add_edge_def dict_getitem_def split: if_splits option.splits)

lemma remove_edge_True:
  "remove_edge g a b = Inr (True, g') \<Longrightarrow>
     dict_in a (vertices g) \<and> dict_in b (vertices g) \<and>
     (\<exists>adjacents. map_of (adjacency_list g) a = Some adjacents \<and> b \<in> set adjacents \<and>
        g' = g\<lparr>adjacency_list := dict_setitem a (removeAll b adjacents) (adjacency_list g)\<rparr>)"
  by (simp add: remove_edge_def dict_getitem_def pyset_remove_def split: if_splits option.splits)

lemma remove_edge_False: "remove_edge g a b = Inr (False, g') \<Longrightarrow> g' = g"
  by (simp add: remove_edge_def dict_getitem_def pyset_remove_def split: if_splits option.splits)

lemma graph_inv_init: "graph_inv DirectedGraph_init"
  by (simp add: graph_inv_def DirectedGraph_init_def dict_keys_def)


lemma graph_invI:
  assumes "set (map fst (adjacency_list g)) = set (map fst (vertices g))"
    and "\<And>v xs. (v, xs) \<in> set (adjacency_list g) \<Longrightarrow> set xs \<subseteq> set (map fst (vertices g))"
  shows "graph_inv g"
  using assms unfolding graph_inv_def dict_keys_def by blast

lemma graph_inv_keys:
  "graph_inv g \<Longrightarrow> set (map fst (adjacency_list g)) = set (map fst (vertices g))"
  unfolding graph_inv_def dict_keys_def by blast

lemma graph_inv_targets:
  "graph_inv g \<Longrightarrow> (v, xs) \<in> set (adjacency_list g) \<Longrightarrow> set xs \<subseteq> set (map fst (vertices g))"
  unfolding graph_inv_def dict_keys_def by blast

lemma graph_inv_setitem_adjacency:
  assumes inv: "graph_inv g" and a: "dict_in a (vertices g)"
    and sub: "set adjacents \<subseteq> set (map fst (vertices g))"
  shows "graph_inv (g\<lparr>adjacency_list := dict_setitem a adjacents (adjacency_list g)\<rparr>)"
proof (rule graph_invI)
  let ?g = "g\<lparr>adjacency_list := dict_setitem a adjacents (adjacency_list g)\<rparr>"
  have "a \<in> set (map fst (vertices g))" using a by (simp only: dict_in_def)
  then have "insert a (set (map fst (vertices g))) = set (map fst (vertices g))" by blast
  then show "set (map fst (adjacency_list ?g)) = set (map fst (vertices ?g))"
    using graph_inv_keys [OF inv] by (simp add: keys_dict_setitem del: set_map)
next
  fix v xs
  assume "(v, xs) \<in> set (adjacency_list (g\<lparr>adjacency_list := dict_setitem a adjacents (adjacency_list g)\<rparr>))"
  then have "(v, xs) \<in> set (dict_setitem a adjacents (adjacency_list g))" by simp
  then have "(v, xs) = (a, adjacents) \<or> (v, xs) \<in> set (adjacency_list g)"
    using set_dict_setitem_subset [of a adjacents "adjacency_list g"] by blast
  then have "set xs \<subseteq> set (map fst (vertices g))"
    using sub graph_inv_targets [OF inv] by blast
  then show "set xs \<subseteq> set (map fst (vertices (g\<lparr>adjacency_list := dict_setitem a adjacents (adjacency_list g)\<rparr>)))"
    by simp
qed

lemma graph_inv_add_vertex: "graph_inv g \<Longrightarrow> graph_inv (snd (add_vertex g k d))"
proof (cases "dict_in k (vertices g)")
  case True
  assume "graph_inv g"
  with True show ?thesis by (simp add: add_vertex_def)
next
  case False
  assume inv: "graph_inv g"
  let ?g = "g\<lparr>vertices := dict_setitem k d (vertices g),
               adjacency_list := dict_setitem k [] (adjacency_list g)\<rparr>"
  have "graph_inv ?g"
  proof (rule graph_invI)
    show "set (map fst (adjacency_list ?g)) = set (map fst (vertices ?g))"
      using graph_inv_keys [OF inv] by (simp add: keys_dict_setitem del: set_map)
  next
    fix v xs assume "(v, xs) \<in> set (adjacency_list ?g)"
    then have "(v, xs) \<in> set (dict_setitem k [] (adjacency_list g))" by simp
    then have "(v, xs) = (k, []) \<or> (v, xs) \<in> set (adjacency_list g)"
      using set_dict_setitem_subset [of k "[]" "adjacency_list g"] by blast
    then have "set xs \<subseteq> set (map fst (vertices g))"
      using graph_inv_targets [OF inv] by auto
    then have "set xs \<subseteq> insert k (set (map fst (vertices g)))" by blast
    then show "set xs \<subseteq> set (map fst (vertices ?g))"
      by (simp add: keys_dict_setitem del: set_map)
  qed
  with False show ?thesis by (simp add: add_vertex_def)
qed

lemma graph_inv_add_edge:
  assumes inv: "graph_inv g" and call: "add_edge g a b = Inr (r, g')"
  shows "graph_inv g'"
proof (cases r)
  case True
  from call True have "add_edge g a b = Inr (True, g')" by simp
  from add_edge_True [OF this] obtain adjacents where
    a: "dict_in a (vertices g)" and b: "dict_in b (vertices g)" and
    m: "map_of (adjacency_list g) a = Some adjacents" and
    g': "g' = g\<lparr>adjacency_list := dict_setitem a (adjacents @ [b]) (adjacency_list g)\<rparr>"
    by blast
  have "(a, adjacents) \<in> set (adjacency_list g)" using m by (rule map_of_SomeD)
  then have "set adjacents \<subseteq> set (map fst (vertices g))" by (rule graph_inv_targets [OF inv])
  moreover have "b \<in> set (map fst (vertices g))" using b by (simp only: dict_in_def)
  ultimately have "set (adjacents @ [b]) \<subseteq> set (map fst (vertices g))" by simp
  then show ?thesis unfolding g' by (rule graph_inv_setitem_adjacency [OF inv a])
next
  case False
  with call have "g' = g" using add_edge_False [of g a b g'] by simp
  with inv show ?thesis by simp
qed

lemma graph_inv_remove_edge:
  assumes inv: "graph_inv g" and call: "remove_edge g a b = Inr (r, g')"
  shows "graph_inv g'"
proof (cases r)
  case True
  from call True have "remove_edge g a b = Inr (True, g')" by simp
  from remove_edge_True [OF this] obtain adjacents where
    a: "dict_in a (vertices g)" and
    m: "map_of (adjacency_list g) a = Some adjacents" and
    g': "g' = g\<lparr>adjacency_list := dict_setitem a (removeAll b adjacents) (adjacency_list g)\<rparr>"
    by blast
  have "(a, adjacents) \<in> set (adjacency_list g)" using m by (rule map_of_SomeD)
  then have "set adjacents \<subseteq> set (map fst (vertices g))" by (rule graph_inv_targets [OF inv])
  then have "set (removeAll b adjacents) \<subseteq> set (map fst (vertices g))" by auto
  then show ?thesis unfolding g' by (rule graph_inv_setitem_adjacency [OF inv a])
next
  case False
  with call have "g' = g" using remove_edge_False [of g a b g'] by simp
  with inv show ?thesis by simp
qed

lemma graph_inv_graph_call:
  assumes inv: "graph_inv g" and call: "graph_call g c = Inr (r, g')"
  shows "graph_inv g'"
proof (cases c)
  case (AddVertex k d)
  with call have "g' = snd (add_vertex g k d)" by (simp split: prod.splits)
  with inv show ?thesis by (simp add: graph_inv_add_vertex)
next
  case (AddEdge a b)
  with call obtain r' where "add_edge g a b = Inr (r', g')"
    by (auto split: sum.splits prod.splits)
  with inv show ?thesis by (rule graph_inv_add_edge)
next
  case (RemoveEdge a b)
  with call obtain r' where "remove_edge g a b = Inr (r', g')"
    by (auto split: sum.splits prod.splits)
  with inv show ?thesis by (rule graph_inv_remove_edge)
next
  case (ListOutgoing k)
  with call have "g' = g" by (simp split: sum.splits)
  with inv show ?thesis by simp
next
  case (ListIncoming k)
  with call inv show ?thesis by simp
next
  case (GetVertexData k)
  with call inv show ?thesis by simp
next
  case GetAllVertices
  with call inv show ?thesis by simp
next
  case (VertexExists k)
  with call inv show ?thesis by simp
qed

section \<open>Edges, and the two neighbour queries\<close>

lemma dict_ok_entry: "dict_ok d \<Longrightarrow> (k, v) \<in> set d \<longleftrightarrow> map_of d k = Some v"
  by (simp add: dict_ok_def)

lemma incoming_iff:
  "a \<in> set (list_incoming_adjacent_vertices g b) \<longleftrightarrow>
     dict_in b (vertices g) \<and> (\<exists>xs. (a, xs) \<in> set (adjacency_list g) \<and> b \<in> set xs)"
  by (force simp: list_incoming_adjacent_vertices_def incoming_loop_eq)

lemma incoming_has_edge:
  "dict_ok (adjacency_list g) \<Longrightarrow>
     a \<in> set (list_incoming_adjacent_vertices g b) \<longleftrightarrow>
       dict_in b (vertices g) \<and> has_edge g a b"
  by (auto simp: incoming_iff dict_ok_entry has_edge_def split: option.splits)

lemma has_edge_incoming:
  "dict_in b (vertices g) \<Longrightarrow> has_edge g a b \<Longrightarrow>
     a \<in> set (list_incoming_adjacent_vertices g b)"
  by (auto simp: incoming_iff has_edge_def split: option.splits dest: map_of_SomeD)

lemma outgoing_has_edge:
  "dict_in a (vertices g) \<Longrightarrow> has_edge g a b \<Longrightarrow>
     \<exists>out. list_outgoing_adjacent_vertices g a = Inr out \<and> b \<in> set out"
  by (auto simp: list_outgoing_adjacent_vertices_def dict_getitem_def has_edge_def
           split: option.splits)

lemma outgoing_no_edge:
  "dict_in a (vertices g) \<Longrightarrow> dict_in a (adjacency_list g) \<Longrightarrow> \<not> has_edge g a b \<Longrightarrow>
     \<exists>out. list_outgoing_adjacent_vertices g a = Inr out \<and> b \<notin> set out"
  by (auto simp: list_outgoing_adjacent_vertices_def dict_getitem_def has_edge_def dict_in_iff
           split: option.splits)

lemma has_edge_setitem:
  "has_edge (g\<lparr>adjacency_list := dict_setitem a xs (adjacency_list g)\<rparr>) a b \<longleftrightarrow> b \<in> set xs"
  by (simp add: has_edge_def map_of_dict_setitem)

lemma remove_edge_no_edge:
  assumes keys: "set (map fst (adjacency_list g)) = set (map fst (vertices g))"
    and no: "\<not> has_edge g a b"
  shows "remove_edge g a b = Inr (False, g)"
proof (cases "dict_in a (vertices g) \<and> dict_in b (vertices g)")
  case False
  then show ?thesis by (auto simp: remove_edge_def)
next
  case True
  then have "a \<in> set (map fst (adjacency_list g))" using keys by (simp only: dict_in_def)
  then obtain xs where xs: "map_of (adjacency_list g) a = Some xs"
    using dict_in_iff [of a "adjacency_list g"] by (auto simp: dict_in_def)
  with no have "b \<notin> set xs" by (simp add: has_edge_def)
  with True xs show ?thesis by (simp add: remove_edge_def dict_getitem_def)
qed

lemma remove_edge_has_edge:
  assumes "dict_in a (vertices g)" and "dict_in b (vertices g)" and "has_edge g a b"
  shows "\<exists>xs. map_of (adjacency_list g) a = Some xs \<and>
     remove_edge g a b =
       Inr (True, g\<lparr>adjacency_list := dict_setitem a (removeAll b xs) (adjacency_list g)\<rparr>)"
  using assms
  by (auto simp: remove_edge_def dict_getitem_def pyset_remove_def has_edge_def
           split: option.splits)

section \<open>The application: what the mutators return\<close>

lemma follow_user_True:
  "follow_user s a b = Inr (True, s') \<Longrightarrow>
     dict_in a (users s) \<and> dict_in b (users s) \<and>
     (\<exists>g'. add_edge (graph s) a b = Inr (True, g') \<and> s' = s\<lparr>graph := g'\<rparr>)"
  by (auto simp: follow_user_def split: if_splits sum.splits)

lemma unfollow_user_Inr:
  "unfollow_user s a b = Inr (r, s') \<longleftrightarrow>
     (\<exists>g'. remove_edge (graph s) a b = Inr (r, g') \<and> s' = s\<lparr>graph := g'\<rparr>)"
  by (auto simp: unfollow_user_def split: sum.splits)

lemma add_user_cases:
  "add_user s p =
     (if dict_in (user_id p) (users s) then (False, s)
      else if dict_in (user_id p) (vertices (graph s))
      then (False, s\<lparr>users := dict_setitem (user_id p) p (users s)\<rparr>)
      else (True, \<lparr>graph = (graph s)\<lparr>vertices := dict_setitem (user_id p) (Some p) (vertices (graph s)),
                     adjacency_list := dict_setitem (user_id p) [] (adjacency_list (graph s))\<rparr>,
                   users = dict_setitem (user_id p) p (users s)\<rparr>))"
  by (simp add: add_user_def add_vertex_def Let_def)

section \<open>The small run\<close>

lemma scenario_run:
  "app_calls SocialMediaApp_init scenario_calls = Inr (replicate 5 (RBool True), scenario_app)"
  by (simp add: scenario_calls_def scenario_app_def scenario_graph_def SocialMediaApp_init_def
      DirectedGraph_init_def add_user_def add_vertex_def follow_user_def add_edge_def
      dict_in_def dict_getitem_def pyset_add_def person_a_def person_b_def person_c_def
      Person_init_def Let_def numeral_eq_Suc)

lemma scenario_graph_inv: "graph_inv scenario_graph"
  by (simp add: graph_inv_def scenario_graph_def dict_keys_def)

lemma scenario_lockstep: "lockstep scenario_app"
  by (simp add: lockstep_def scenario_app_def scenario_graph_def dict_keys_def
      get_all_vertices_def)

lemma scenario_app_inv: "app_inv scenario_app"
  using scenario_graph_inv scenario_lockstep
  by (simp add: app_inv_def dicts_ok_def scenario_app_def scenario_graph_def dict_ok_def)

section \<open>Unfollowing\<close>

lemma has_edge_vertices:
  assumes inv: "graph_inv g" and e: "has_edge g a b"
  shows "dict_in a (vertices g) \<and> dict_in b (vertices g)"
proof -
  from e obtain xs where m: "map_of (adjacency_list g) a = Some xs" and b: "b \<in> set xs"
    by (auto simp: has_edge_def split: option.splits)
  have entry: "(a, xs) \<in> set (adjacency_list g)" using m by (rule map_of_SomeD)
  then have "a \<in> set (map fst (adjacency_list g))" by force
  then have "a \<in> set (map fst (vertices g))" using graph_inv_keys [OF inv] by simp
  moreover have "b \<in> set (map fst (vertices g))"
    using graph_inv_targets [OF inv entry] b by blast
  ultimately show ?thesis by (simp only: dict_in_def)
qed

lemma remove_edge_no_edge_after:
  assumes inv: "graph_inv g" and r: "remove_edge g a b = Inr (r, g')"
  shows "\<not> has_edge g' a b"
proof (cases r)
  case True
  with r have "remove_edge g a b = Inr (True, g')" by simp
  from remove_edge_True [OF this] obtain xs where
    "g' = g\<lparr>adjacency_list := dict_setitem a (removeAll b xs) (adjacency_list g)\<rparr>"
    by blast
  then show ?thesis by (simp add: has_edge_setitem)
next
  case False
  with r have eq: "remove_edge g a b = Inr (False, g')" by simp
  then have g': "g' = g" by (rule remove_edge_False)
  show ?thesis
  proof
    assume "has_edge g' a b"
    then have e: "has_edge g a b" by (simp add: g')
    from has_edge_vertices [OF inv e] have "dict_in a (vertices g)" "dict_in b (vertices g)"
      by simp_all
    from remove_edge_has_edge [OF this e] eq show False by auto
  qed
qed

lemma outgoing_Inr_has_edge:
  "list_outgoing_adjacent_vertices g a = Inr out \<Longrightarrow> b \<in> set out \<Longrightarrow> has_edge g a b"
  by (auto simp: list_outgoing_adjacent_vertices_def dict_getitem_def has_edge_def
           split: if_splits option.splits)

lemma remove_edge_dict_ok:
  "dict_ok (adjacency_list g) \<Longrightarrow> remove_edge g a b = Inr (r, g') \<Longrightarrow>
     dict_ok (adjacency_list g')"
  by (cases r) (auto dest!: remove_edge_True remove_edge_False simp: dict_ok_setitem)

lemma unfollow_removes:
  assumes ok: "dict_ok (adjacency_list (graph t))" and inv: "graph_inv (graph t)"
    and un: "unfollow_user t a b = Inr (r, t')"
  shows "(\<forall>out. list_outgoing_adjacent_vertices (graph t') a = Inr out \<longrightarrow> b \<notin> set out) \<and>
         a \<notin> set (list_incoming_adjacent_vertices (graph t') b)"
proof -
  from un obtain g' where r: "remove_edge (graph t) a b = Inr (r, g')"
    and t': "t' = t\<lparr>graph := g'\<rparr>"
    by (auto simp: unfollow_user_Inr)
  have no: "\<not> has_edge g' a b" using inv r by (rule remove_edge_no_edge_after)
  have ok': "dict_ok (adjacency_list g')" using ok r by (rule remove_edge_dict_ok)
  have "a \<notin> set (list_incoming_adjacent_vertices g' b)"
    using no incoming_has_edge [OF ok', of a b] by simp
  moreover have "\<forall>out. list_outgoing_adjacent_vertices g' a = Inr out \<longrightarrow> b \<notin> set out"
    using no outgoing_Inr_has_edge [of g' a _ b] by blast
  ultimately show ?thesis by (simp add: t')
qed

section \<open>Lock-step of users and vertices\<close>

lemma lockstep_init: "lockstep SocialMediaApp_init"
  by (simp add: lockstep_def SocialMediaApp_init_def DirectedGraph_init_def dict_keys_def
      get_all_vertices_def)

lemma lockstep_iff: "lockstep s \<longleftrightarrow> (\<forall>k. dict_in k (users s) \<longleftrightarrow> vertex_exists (graph s) k)"
  by (auto simp: lockstep_def dict_in_def vertex_exists_def dict_keys_def get_all_vertices_def
           simp del: set_map)

lemma add_edge_vertices: "add_edge g a b = Inr (r, g') \<Longrightarrow> vertices g' = vertices g"
  by (cases r) (auto dest!: add_edge_True add_edge_False)

lemma remove_edge_vertices: "remove_edge g a b = Inr (r, g') \<Longrightarrow> vertices g' = vertices g"
  by (cases r) (auto dest!: remove_edge_True remove_edge_False)

lemma follow_user_Inr:
  "follow_user s a b = Inr (r, s') \<Longrightarrow>
     s' = s \<or> (\<exists>g'. add_edge (graph s) a b = Inr (r, g') \<and> s' = s\<lparr>graph := g'\<rparr>)"
  by (auto simp: follow_user_def split: if_splits sum.splits)

lemma lockstep_add_user: "lockstep s \<Longrightarrow> lockstep (snd (add_user s p))"
proof -
  assume l: "lockstep s"
  then have "dict_in (user_id p) (vertices (graph s)) = dict_in (user_id p) (users s)"
    by (simp add: lockstep_iff vertex_exists_def)
  then show ?thesis using l
    by (simp add: add_user_cases lockstep_def get_all_vertices_def dict_keys_def
        keys_dict_setitem del: set_map)
qed

lemma lockstep_follow_user:
  "lockstep s \<Longrightarrow> follow_user s a b = Inr (r, s') \<Longrightarrow> lockstep s'"
  by (auto dest!: follow_user_Inr add_edge_vertices
           simp: lockstep_def get_all_vertices_def)

lemma lockstep_unfollow_user:
  "lockstep s \<Longrightarrow> unfollow_user s a b = Inr (r, s') \<Longrightarrow> lockstep s'"
  by (auto simp: unfollow_user_Inr lockstep_def get_all_vertices_def
           dest!: remove_edge_vertices)

lemma lockstep_app_call:
  assumes l: "lockstep s" and call: "app_call s c = Inr (r, s')"
  shows "lockstep s'"
proof (cases c)
  case (AddUser p)
  with call have "s' = snd (add_user s p)" by (simp split: prod.splits)
  with l show ?thesis by (simp add: lockstep_add_user)
next
  case (FollowUser a b)
  with call obtain r' where "follow_user s a b = Inr (r', s')"
    by (auto split: sum.splits prod.splits)
  with l show ?thesis by (rule lockstep_follow_user)
next
  case (UnfollowUser a b)
  with call obtain r' where "unfollow_user s a b = Inr (r', s')"
    by (auto split: sum.splits prod.splits)
  with l show ?thesis by (rule lockstep_unfollow_user)
next
  case (GetFollowing a)
  with call have "s' = s" by (simp split: sum.splits)
  with l show ?thesis by simp
next
  case (GetFollowers a)
  with call l show ?thesis by simp
next
  case GetAllUsers
  with call l show ?thesis by simp
next
  case (GetUser a)
  with call l show ?thesis by simp
qed

section \<open>Stored profiles stay\<close>

lemma add_user_keeps_user:
  "map_of (users s) k = Some p \<Longrightarrow> map_of (users (snd (add_user s q))) k = Some p"
  by (auto simp: add_user_cases dict_in_iff map_of_dict_setitem)

lemma app_call_keeps_user:
  assumes m: "map_of (users s) k = Some p" and call: "app_call s c = Inr (r, s')"
  shows "map_of (users s') k = Some p"
proof (cases c)
  case (AddUser q)
  with call have "s' = snd (add_user s q)" by (simp split: prod.splits)
  with m show ?thesis by (simp add: add_user_keeps_user)
next
  case (FollowUser a b)
  with call obtain r' where "follow_user s a b = Inr (r', s')"
    by (auto split: sum.splits prod.splits)
  from follow_user_Inr [OF this] have "users s' = users s" by auto
  with m show ?thesis by simp
next
  case (UnfollowUser a b)
  with call obtain r' where "unfollow_user s a b = Inr (r', s')"
    by (auto split: sum.splits prod.splits)
  then have "users s' = users s" by (auto simp: unfollow_user_Inr)
  with m show ?thesis by simp
next
  case (GetFollowing a)
  with call have "s' = s" by (simp split: sum.splits)
  with m show ?thesis by simp
next
  case (GetFollowers a)
  with call m show ?thesis by simp
next
  case GetAllUsers
  with call m show ?thesis by simp
next
  case (GetUser a)
  with call m show ?thesis by simp
qed

lemma app_calls_keep_user:
  "map_of (users s) k = Some p \<Longrightarrow> app_calls s cs = Inr (rs, s') \<Longrightarrow>
     map_of (users s') k = Some p"
proof (induction cs arbitrary: s rs)
  case Nil
  then show ?case by simp
next
  case (Cons c cs)
  from Cons.prems(2) obtain r s1 rs' where
    c: "app_call s c = Inr (r, s1)" and cs: "app_calls s1 cs = Inr (rs', s')"
    by (auto split: sum.splits prod.splits)
  from app_call_keeps_user [OF Cons.prems(1) c] cs show ?case by (rule Cons.IH)
qed

section \<open>No call raises\<close>

lemma graph_inv_getitem:
  assumes inv: "graph_inv g" and v: "dict_in a (vertices g)"
  shows "\<exists>xs. dict_getitem (adjacency_list g) a = Inr xs"
proof -
  have "a \<in> set (map fst (adjacency_list g))"
    using v graph_inv_keys [OF inv] by (simp only: dict_in_def)
  then have "map_of (adjacency_list g) a \<noteq> None"
    using dict_in_iff [of a "adjacency_list g"] by (simp only: dict_in_def)
  then show ?thesis by (auto simp: dict_getitem_def)
qed

lemma add_edge_returns:
  assumes inv: "graph_inv g"
  shows "\<exists>r g'. add_edge g a b = Inr (r, g')"
proof (cases "dict_in a (vertices g) \<and> dict_in b (vertices g)")
  case False
  then have "add_edge g a b = Inr (False, g)" by (auto simp: add_edge_def)
  then show ?thesis by blast
next
  case True
  with graph_inv_getitem [OF inv, of a] obtain xs where
    xs: "dict_getitem (adjacency_list g) a = Inr xs" by blast
  show ?thesis
  proof (cases "b \<in> set xs")
    case True
    with \<open>dict_in a (vertices g) \<and> dict_in b (vertices g)\<close> xs
    have "add_edge g a b = Inr (False, g)" by (simp add: add_edge_def)
    then show ?thesis by blast
  next
    case False
    with \<open>dict_in a (vertices g) \<and> dict_in b (vertices g)\<close> xs
    have "add_edge g a b = Inr (True, g\<lparr>adjacency_list :=
        dict_setitem a (pyset_add b xs) (adjacency_list g)\<rparr>)"
      by (simp add: add_edge_def)
    then show ?thesis by blast
  qed
qed

lemma remove_edge_returns:
  assumes inv: "graph_inv g"
  shows "\<exists>r g'. remove_edge g a b = Inr (r, g')"
proof (cases "dict_in a (vertices g) \<and> dict_in b (vertices g)")
  case False
  then have "remove_edge g a b = Inr (False, g)" by (auto simp: remove_edge_def)
  then show ?thesis by blast
next
  case True
  with graph_inv_getitem [OF inv, of a] obtain xs where
    xs: "dict_getitem (adjacency_list g) a = Inr xs" by blast
  show ?thesis
  proof (cases "b \<in> set xs")
    case False
    with \<open>dict_in a (vertices g) \<and> dict_in b (vertices g)\<close> xs
    have "remove_edge g a b = Inr (False, g)" by (simp add: remove_edge_def)
    then show ?thesis by blast
  next
    case True
    with \<open>dict_in a (vertices g) \<and> dict_in b (vertices g)\<close> xs
    have "remove_edge g a b = Inr (True, g\<lparr>adjacency_list :=
        dict_setitem a (removeAll b xs) (adjacency_list g)\<rparr>)"
      by (simp add: remove_edge_def pyset_remove_def)
    then show ?thesis by blast
  qed
qed

lemma list_outgoing_returns:
  "graph_inv g \<Longrightarrow> \<exists>ks. list_outgoing_adjacent_vertices g a = Inr ks"
  using graph_inv_getitem [of g a] by (auto simp: list_outgoing_adjacent_vertices_def)

lemma graph_call_returns: "graph_inv g \<Longrightarrow> \<exists>r g'. graph_call g c = Inr (r, g')"
proof (cases c)
  case (AddVertex k d)
  then show ?thesis by (simp split: prod.splits)
next
  case (AddEdge a b)
  assume "graph_inv g"
  from add_edge_returns [OF this, of a b] AddEdge show ?thesis by auto
next
  case (RemoveEdge a b)
  assume "graph_inv g"
  from remove_edge_returns [OF this, of a b] RemoveEdge show ?thesis by auto
next
  case (ListOutgoing k)
  assume "graph_inv g"
  from list_outgoing_returns [OF this, of k] ListOutgoing show ?thesis by auto
qed simp_all

lemma graph_calls_return:
  "graph_inv g \<Longrightarrow>
     \<exists>rs g'. graph_calls g cs = Inr (rs, g') \<and> length rs = length cs \<and> graph_inv g'"
proof (induction cs arbitrary: g)
  case Nil
  then show ?case by simp
next
  case (Cons c cs)
  from graph_call_returns [OF Cons.prems, of c] obtain r g1 where
    c: "graph_call g c = Inr (r, g1)" by blast
  from graph_inv_graph_call [OF Cons.prems c] have "graph_inv g1" .
  from Cons.IH [OF this] obtain rs g' where
    "graph_calls g1 cs = Inr (rs, g')" "length rs = length cs" "graph_inv g'" by blast
  with c show ?case by simp
qed

text \<open>The application keeps the invariant of its graph.\<close>

lemma graph_inv_add_user: "graph_inv (graph s) \<Longrightarrow> graph_inv (graph (snd (add_user s p)))"
proof -
  assume inv: "graph_inv (graph s)"
  have "graph (snd (add_user s p)) = graph s \<or>
        graph (snd (add_user s p)) = snd (add_vertex (graph s) (user_id p) (Some p))"
    by (simp add: add_user_cases add_vertex_def)
  with inv graph_inv_add_vertex [OF inv] show ?thesis by auto
qed

lemma graph_inv_app_call:
  assumes inv: "graph_inv (graph s)" and call: "app_call s c = Inr (r, s')"
  shows "graph_inv (graph s')"
proof (cases c)
  case (AddUser p)
  with call have "s' = snd (add_user s p)" by (simp split: prod.splits)
  with inv show ?thesis by (simp add: graph_inv_add_user)
next
  case (FollowUser a b)
  with call obtain r' where "follow_user s a b = Inr (r', s')"
    by (auto split: sum.splits prod.splits)
  from follow_user_Inr [OF this] inv graph_inv_add_edge [OF inv] show ?thesis by auto
next
  case (UnfollowUser a b)
  with call obtain r' where "unfollow_user s a b = Inr (r', s')"
    by (auto split: sum.splits prod.splits)
  with graph_inv_remove_edge [OF inv] show ?thesis by (auto simp: unfollow_user_Inr)
next
  case (GetFollowing a)
  with call have "s' = s" by (simp split: sum.splits)
  with inv show ?thesis by simp
next
  case (GetFollowers a)
  with call inv show ?thesis by simp
next
  case GetAllUsers
  with call inv show ?thesis by simp
next
  case (GetUser a)
  with call inv show ?thesis by simp
qed

lemma app_call_returns: "graph_inv (graph s) \<Longrightarrow> \<exists>r s'. app_call s c = Inr (r, s')"
proof (cases c)
  case (AddUser p)
  then show ?thesis by (simp split: prod.splits)
next
  case (FollowUser a b)
  assume "graph_inv (graph s)"
  from add_edge_returns [OF this, of a b] FollowUser show ?thesis
    by (auto simp: follow_user_def)
next
  case (UnfollowUser a b)
  assume "graph_inv (graph s)"
  from remove_edge_returns [OF this, of a b] UnfollowUser show ?thesis
    by (auto simp: unfollow_user_def)
next
  case (GetFollowing a)
  assume "graph_inv (graph s)"
  from list_outgoing_returns [OF this, of a] GetFollowing show ?thesis
    by (auto simp: get_following_def)
qed simp_all

lemma app_calls_return:
  "graph_inv (graph s) \<Longrightarrow> lockstep s \<Longrightarrow>
     \<exists>rs s'. app_calls s cs = Inr (rs, s') \<and> length rs = length cs \<and>
       graph_inv (graph s') \<and> lockstep s'"
proof (induction cs arbitrary: s)
  case Nil
  then show ?case by simp
next
  case (Cons c cs)
  from app_call_returns [OF Cons.prems(1), of c] obtain r s1 where
    c: "app_call s c = Inr (r, s1)" by blast
  have "graph_inv (graph s1)" using Cons.prems(1) c by (rule graph_inv_app_call)
  moreover have "lockstep s1" using Cons.prems(2) c by (rule lockstep_app_call)
  ultimately obtain rs s' where
    "app_calls s1 cs = Inr (rs, s')" "length rs = length cs" "graph_inv (graph s')" "lockstep s'"
    using Cons.IH by blast
  with c show ?case by simp
qed

text \<open>The answers for an unknown id.\<close>

lemma unknown_vertex_answers:
  "\<not> dict_in k (vertices g) \<Longrightarrow>
     list_outgoing_adjacent_vertices g k = Inr [] \<and>
     list_incoming_adjacent_vertices g k = [] \<and>
     get_vertex_data g k = None \<and>
     add_edge g k b = Inr (False, g) \<and> add_edge g b k = Inr (False, g) \<and>
     remove_edge g k b = Inr (False, g) \<and> remove_edge g b k = Inr (False, g)"
  by (simp add: list_outgoing_adjacent_vertices_def list_incoming_adjacent_vertices_def
      get_vertex_data_def dict_get_def dict_in_iff add_edge_def remove_edge_def)

lemma unknown_user_answers:
  assumes l: "lockstep s" and k: "\<not> dict_in k (users s)"
  shows "get_following s k = Inr [] \<and> get_followers s k = [] \<and> get_user s k = None \<and>
     follow_user s k b = Inr (False, s) \<and> follow_user s b k = Inr (False, s) \<and>
     unfollow_user s k b = Inr (False, s) \<and> unfollow_user s b k = Inr (False, s)"
proof -
  have "\<not> dict_in k (vertices (graph s))"
    using l k by (auto simp: lockstep_iff vertex_exists_def)
  from unknown_vertex_answers [OF this] k show ?thesis
    by (simp add: get_following_def get_followers_def get_user_def dict_get_def dict_in_iff
        follow_user_def unfollow_user_def)
qed

section \<open>Visibility is not read\<close>

lemma setitem_map_values:
  "dict_setitem k (f v) (map (\<lambda>(k, x). (k, f x)) d) =
     map (\<lambda>(k, x). (k, f x)) (dict_setitem k v d)"
  by (induction d) auto

lemma dict_in_map_values: "dict_in k (map (\<lambda>(k, x). (k, f x)) d) = dict_in k d"
  by (induction d) (auto simp: dict_in_def)

lemma map_of_map_values:
  "map_of (map (\<lambda>(k, x). (k, f x)) d) k = map_option f (map_of d k)"
  by (induction d) auto

lemma user_id_hide [simp]: "user_id (hide_privacy p) = user_id p"
  by (simp add: hide_privacy_def)

lemma hide_graph_simps [simp]:
  "adjacency_list (hide_graph g) = adjacency_list g"
  "vertices (hide_graph g) = map (\<lambda>(k, d). (k, map_option hide_privacy d)) (vertices g)"
  "hide_graph (g\<lparr>adjacency_list := al\<rparr>) = (hide_graph g)\<lparr>adjacency_list := al\<rparr>"
  by (simp_all add: hide_graph_def)

lemma hide_app_simps [simp]:
  "graph (hide_app s) = hide_graph (graph s)"
  "users (hide_app s) = map (\<lambda>(k, p). (k, hide_privacy p)) (users s)"
  "hide_app (s\<lparr>graph := g\<rparr>) = (hide_app s)\<lparr>graph := hide_graph g\<rparr>"
  by (simp_all add: hide_app_def)

lemma add_edge_hide:
  "add_edge (hide_graph g) a b = map_sum id (map_prod id hide_graph) (add_edge g a b)"
  by (simp add: add_edge_def dict_in_map_values split: sum.splits)

lemma remove_edge_hide:
  "remove_edge (hide_graph g) a b = map_sum id (map_prod id hide_graph) (remove_edge g a b)"
  by (simp add: remove_edge_def dict_in_map_values pyset_remove_def split: sum.splits)

lemma list_outgoing_hide:
  "list_outgoing_adjacent_vertices (hide_graph g) a = list_outgoing_adjacent_vertices g a"
  by (simp add: list_outgoing_adjacent_vertices_def dict_in_map_values)

lemma list_incoming_hide:
  "list_incoming_adjacent_vertices (hide_graph g) a = list_incoming_adjacent_vertices g a"
  by (simp add: list_incoming_adjacent_vertices_def dict_in_map_values)

lemma lookup_users_hide:
  "lookup_users (map (\<lambda>(k, p). (k, hide_privacy p)) us) ids =
     map hide_privacy (lookup_users us ids)"
  by (induction ids) (simp_all add: map_of_map_values split: option.splits)

lemma add_user_hide:
  "add_user (hide_app s) (hide_privacy p) = map_prod id hide_app (add_user s p)"
  by (simp add: add_user_cases dict_in_map_values hide_app_def hide_graph_def
      setitem_map_values [symmetric])

lemma follow_user_hide:
  "follow_user (hide_app s) a b = map_sum id (map_prod id hide_app) (follow_user s a b)"
  by (simp add: follow_user_def dict_in_map_values add_edge_hide split: sum.splits)

lemma unfollow_user_hide:
  "unfollow_user (hide_app s) a b = map_sum id (map_prod id hide_app) (unfollow_user s a b)"
  by (simp add: unfollow_user_def remove_edge_hide split: sum.splits)

lemma get_following_hide:
  "get_following (hide_app s) a = map_sum id (map hide_privacy) (get_following s a)"
  by (simp add: get_following_def list_outgoing_hide lookup_users_hide split: sum.splits)

lemma get_followers_hide:
  "get_followers (hide_app s) a = map hide_privacy (get_followers s a)"
  by (simp add: get_followers_def list_incoming_hide lookup_users_hide)

lemma get_all_users_hide: "get_all_users (hide_app s) = map hide_privacy (get_all_users s)"
  by (simp add: get_all_users_def dict_values_def split_def)

lemma get_user_hide: "get_user (hide_app s) a = map_option hide_privacy (get_user s a)"
  by (simp add: get_user_def dict_get_def map_of_map_values)

lemma app_call_hide:
  "app_call (hide_app s) (hide_op c) =
     map_sum id (map_prod hide_result hide_app) (app_call s c)"
proof (cases c)
  case (AddUser p)
  then show ?thesis by (simp add: add_user_hide split: prod.splits)
next
  case (FollowUser a b)
  then show ?thesis by (simp add: follow_user_hide split: sum.splits)
next
  case (UnfollowUser a b)
  then show ?thesis by (simp add: unfollow_user_hide split: sum.splits)
next
  case (GetFollowing a)
  then show ?thesis by (simp add: get_following_hide split: sum.splits)
next
  case (GetFollowers a)
  then show ?thesis by (simp add: get_followers_hide)
next
  case GetAllUsers
  then show ?thesis by (simp add: get_all_users_hide)
next
  case (GetUser a)
  then show ?thesis by (simp add: get_user_hide)
qed

lemma app_calls_hide:
  "app_calls (hide_app s) (map hide_op cs) =
     map_sum id (map_prod (map hide_result) hide_app) (app_calls s cs)"
proof (induction cs arbitrary: s)
  case Nil
  show ?case by simp
next
  case (Cons c cs)
  show ?case
  proof (cases "app_call s c")
    case (Inl e)
    then show ?thesis using app_call_hide [of s c] by simp
  next
    case (Inr rs')
    obtain r s' where rs': "rs' = (r, s')" by (cases rs')
    have 1: "app_call (hide_app s) (hide_op c) = Inr (hide_result r, hide_app s')"
      using app_call_hide [of s c] Inr rs' by simp
    show ?thesis using Inr rs' 1 Cons.IH [of s']
      by (cases "app_calls s' cs") (auto split: prod.splits)
  qed
qed

lemma result_ids_hide: "result_ids (hide_result r) = result_ids r"
  by (cases r rule: result_ids.cases) simp_all

section \<open>What every reached state has\<close>

text \<open>
  The hypotheses of the theorems below (\<open>graph_inv\<close>, \<open>lockstep\<close>, \<open>dict_ok\<close>) are
  parts of \<open>app_inv\<close>, which holds of the new application and after every call.
\<close>

lemma app_inv_init: "app_inv SocialMediaApp_init"
  using lockstep_init graph_inv_init
  by (simp add: app_inv_def dicts_ok_def SocialMediaApp_init_def DirectedGraph_init_def
      dict_ok_def)

lemma add_edge_dict_ok:
  "dict_ok (adjacency_list g) \<Longrightarrow> add_edge g a b = Inr (r, g') \<Longrightarrow>
     dict_ok (adjacency_list g')"
  by (cases r) (auto dest!: add_edge_True add_edge_False simp: dict_ok_setitem)

lemma dicts_ok_add_user: "dicts_ok s \<Longrightarrow> dicts_ok (snd (add_user s p))"
  by (simp add: dicts_ok_def add_user_cases dict_ok_setitem)

lemma dicts_ok_app_call:
  assumes ok: "dicts_ok s" and call: "app_call s c = Inr (r, s')"
  shows "dicts_ok s'"
proof (cases c)
  case (AddUser p)
  with call have "s' = snd (add_user s p)" by (simp split: prod.splits)
  with ok show ?thesis by (simp add: dicts_ok_add_user)
next
  case (FollowUser a b)
  with call obtain r' where "follow_user s a b = Inr (r', s')"
    by (auto split: sum.splits prod.splits)
  from follow_user_Inr [OF this] ok show ?thesis
    by (auto simp: dicts_ok_def add_edge_vertices dest: add_edge_dict_ok)
next
  case (UnfollowUser a b)
  with call obtain r' where "unfollow_user s a b = Inr (r', s')"
    by (auto split: sum.splits prod.splits)
  with ok show ?thesis
    by (auto simp: unfollow_user_Inr dicts_ok_def remove_edge_vertices
             dest: remove_edge_dict_ok)
next
  case (GetFollowing a)
  with call have "s' = s" by (simp split: sum.splits)
  with ok show ?thesis by simp
next
  case (GetFollowers a)
  with call ok show ?thesis by simp
next
  case GetAllUsers
  with call ok show ?thesis by simp
next
  case (GetUser a)
  with call ok show ?thesis by simp
qed

lemma app_inv_app_call: "app_inv s \<Longrightarrow> app_call s c = Inr (r, s') \<Longrightarrow> app_inv s'"
  unfolding app_inv_def
  using lockstep_app_call graph_inv_app_call dicts_ok_app_call by blast

lemma app_inv_app_calls: "app_inv s \<Longrightarrow> app_calls s cs = Inr (rs, s') \<Longrightarrow> app_inv s'"
proof (induction cs arbitrary: s rs)
  case Nil
  then show ?case by simp
next
  case (Cons c cs)
  from Cons.prems(2) obtain r s1 rs' where
    c: "app_call s c = Inr (r, s1)" and cs: "app_calls s1 cs = Inr (rs', s')"
    by (auto split: sum.splits prod.splits)
  from app_inv_app_call [OF Cons.prems(1) c] cs show ?case by (rule Cons.IH)
qed

lemma app_inv_reached: "app_calls SocialMediaApp_init cs = Inr (rs, s) \<Longrightarrow> app_inv s"
  using app_inv_init by (rule app_inv_app_calls)

section \<open>The claims\<close>

text \<open>
  C1. When \<open>follow_user s a b\<close> returns \<open>True\<close>, then in the new state \<open>b\<close> is among
  the outgoing neighbours of \<open>a\<close> and \<open>a\<close> among the incoming neighbours of \<open>b\<close>;
  \<open>unfollow_user\<close> on that state returns \<open>True\<close>, and after it neither holds.
  The state is one in which no key of the adjacency dictionary occurs twice, as in every
  state the application reaches (\<open>app_inv_reached\<close>). The last part is about any later
  state \<open>t\<close> of that kind with the graph invariant: after \<open>unfollow_user t a b\<close>,
  whatever it returns, neither holds.
\<close>

theorem follow_then_unfollow:
  assumes ok: "dict_ok (adjacency_list (graph s))"
    and follow: "follow_user s a b = Inr (True, s')"
  shows "dict_in a (users s) \<and> dict_in b (users s) \<and>
         (\<exists>out. list_outgoing_adjacent_vertices (graph s') a = Inr out \<and> b \<in> set out) \<and>
         a \<in> set (list_incoming_adjacent_vertices (graph s') b) \<and>
         (\<exists>s''. unfollow_user s' a b = Inr (True, s'') \<and>
            (\<exists>out. list_outgoing_adjacent_vertices (graph s'') a = Inr out \<and> b \<notin> set out) \<and>
            a \<notin> set (list_incoming_adjacent_vertices (graph s'') b)) \<and>
         (\<forall>t r t'. dict_ok (adjacency_list (graph t)) \<and> graph_inv (graph t) \<and>
            unfollow_user t a b = Inr (r, t') \<longrightarrow>
            (\<forall>out. list_outgoing_adjacent_vertices (graph t') a = Inr out \<longrightarrow> b \<notin> set out) \<and>
            a \<notin> set (list_incoming_adjacent_vertices (graph t') b))"
proof -
  from follow_user_True [OF follow] obtain g' where
    ua: "dict_in a (users s)" and ub: "dict_in b (users s)" and
    e: "add_edge (graph s) a b = Inr (True, g')" and s': "s' = s\<lparr>graph := g'\<rparr>"
    by blast
  from add_edge_True [OF e] obtain adjacents where
    va: "dict_in a (vertices (graph s))" and vb: "dict_in b (vertices (graph s))" and
    g': "g' = (graph s)\<lparr>adjacency_list :=
           dict_setitem a (adjacents @ [b]) (adjacency_list (graph s))\<rparr>"
    by blast
  have va': "dict_in a (vertices g')" and vb': "dict_in b (vertices g')"
    using va vb by (simp_all add: g')
  have edge: "has_edge g' a b" unfolding g' by (simp add: has_edge_setitem)
  have out: "\<exists>out. list_outgoing_adjacent_vertices (graph s') a = Inr out \<and> b \<in> set out"
    using outgoing_has_edge [OF va' edge] by (simp add: s')
  have inc: "a \<in> set (list_incoming_adjacent_vertices (graph s') b)"
    using has_edge_incoming [OF vb' edge] by (simp add: s')
  from remove_edge_has_edge [OF va' vb' edge] obtain xs where
    r: "remove_edge g' a b =
          Inr (True, g'\<lparr>adjacency_list := dict_setitem a (removeAll b xs) (adjacency_list g')\<rparr>)"
    by blast
  let ?g'' = "g'\<lparr>adjacency_list := dict_setitem a (removeAll b xs) (adjacency_list g')\<rparr>"
  let ?s'' = "s'\<lparr>graph := ?g''\<rparr>"
  have un: "unfollow_user s' a b = Inr (True, ?s'')"
    using r by (simp add: unfollow_user_def s')
  have no: "\<not> has_edge ?g'' a b" by (simp add: has_edge_setitem)
  have ok'': "dict_ok (adjacency_list ?g'')"
    using ok by (simp add: g' dict_ok_setitem)
  have va'': "dict_in a (vertices ?g'')" using va' by simp
  have aa'': "dict_in a (adjacency_list ?g'')"
    by (simp add: dict_in_def keys_dict_setitem del: set_map)
  have out'': "\<exists>out. list_outgoing_adjacent_vertices (graph ?s'') a = Inr out \<and> b \<notin> set out"
    using outgoing_no_edge [OF va'' aa'' no] by simp
  have inc'': "a \<notin> set (list_incoming_adjacent_vertices (graph ?s'') b)"
    using no incoming_has_edge [OF ok'', of a b] by simp
  from un out'' inc'' have "\<exists>s''. unfollow_user s' a b = Inr (True, s'') \<and>
            (\<exists>out. list_outgoing_adjacent_vertices (graph s'') a = Inr out \<and> b \<notin> set out) \<and>
            a \<notin> set (list_incoming_adjacent_vertices (graph s'') b)"
    by blast
  moreover have "\<forall>t r t'. dict_ok (adjacency_list (graph t)) \<and> graph_inv (graph t) \<and>
            unfollow_user t a b = Inr (r, t') \<longrightarrow>
            (\<forall>out. list_outgoing_adjacent_vertices (graph t') a = Inr out \<longrightarrow> b \<notin> set out) \<and>
            a \<notin> set (list_incoming_adjacent_vertices (graph t') b)"
    using unfollow_removes [of _ a b] by blast
  ultimately show ?thesis using ua ub out inc by (intro conjI)
qed

theorem follow_then_unfollow_witness:
  "dict_ok (adjacency_list (graph scenario_app)) \<and>
   follow_user scenario_app ''b'' ''a'' =
     Inr (True, scenario_app\<lparr>graph := scenario_graph\<lparr>adjacency_list :=
       [(''a'', [''b'', ''c'']), (''b'', [''a'']), (''c'', [])]\<rparr>\<rparr>) \<and>
   ''b'' \<in> set (list_incoming_adjacent_vertices
     (scenario_graph\<lparr>adjacency_list :=
       [(''a'', [''b'', ''c'']), (''b'', [''a'']), (''c'', [])]\<rparr>) ''a'')"
proof -
  let ?s' = "scenario_app\<lparr>graph := scenario_graph\<lparr>adjacency_list :=
       [(''a'', [''b'', ''c'']), (''b'', [''a'']), (''c'', [])]\<rparr>\<rparr>"
  have ok: "dict_ok (adjacency_list (graph scenario_app))"
    by (simp add: scenario_app_def scenario_graph_def dict_ok_def)
  have follow: "follow_user scenario_app ''b'' ''a'' = Inr (True, ?s')"
    by (simp add: follow_user_def add_edge_def scenario_app_def scenario_graph_def
        dict_in_def dict_getitem_def pyset_add_def)
  have "''b'' \<in> set (list_incoming_adjacent_vertices (graph ?s') ''a'')"
    using follow_then_unfollow [OF ok follow] by blast
  then have "''b'' \<in> set (list_incoming_adjacent_vertices
     (scenario_graph\<lparr>adjacency_list :=
       [(''a'', [''b'', ''c'']), (''b'', [''a'']), (''c'', [])]\<rparr>) ''a'')"
    by simp
  with ok follow show ?thesis by (intro conjI)
qed

text \<open>
  C2. Every operation of the graph keeps the invariant: the adjacency dictionary and the
  vertex dictionary have the same keys, and every id inside an adjacency set is a key of
  the vertex dictionary. The empty graph has it; a vertex that is added gets an empty
  adjacency entry; \<open>add_edge\<close> with a missing endpoint returns \<open>False\<close> and the graph
  as it was.
\<close>

theorem graph_operations_keep_invariant:
  assumes "graph_inv g"
  shows "(\<forall>c r g'. graph_call g c = Inr (r, g') \<longrightarrow> graph_inv g') \<and>
         (\<forall>k d g'. add_vertex g k d = (True, g') \<longrightarrow>
            dict_getitem (adjacency_list g') k = Inr []) \<and>
         (\<forall>a b. \<not> vertex_exists g a \<or> \<not> vertex_exists g b \<longrightarrow>
            add_edge g a b = Inr (False, g)) \<and>
         graph_inv (DirectedGraph_init :: ('a, 'b) DirectedGraph)"
proof (intro conjI allI impI)
  fix c r g' assume "graph_call g c = Inr (r, g')"
  with assms show "graph_inv g'" by (rule graph_inv_graph_call)
next
  fix k d g' assume "add_vertex g k d = (True, g')"
  then show "dict_getitem (adjacency_list g') k = Inr []"
    by (auto simp: add_vertex_def dict_getitem_Inr_iff map_of_dict_setitem split: if_splits)
next
  fix a b assume "\<not> vertex_exists g a \<or> \<not> vertex_exists g b"
  then show "add_edge g a b = Inr (False, g)"
    by (auto simp: add_edge_def vertex_exists_def)
next
  show "graph_inv (DirectedGraph_init :: ('a, 'b) DirectedGraph)" by (rule graph_inv_init)
qed

theorem graph_operations_keep_invariant_witness:
  "graph_inv \<lparr>adjacency_list = [(1::nat, []), (2, [])],
              vertices = [(1, Some True), (2, None)]\<rparr> \<and>
   graph_call \<lparr>adjacency_list = [(1::nat, []), (2, [])],
               vertices = [(1, Some True), (2, None)]\<rparr> (AddEdge 1 2) =
     Inr (GBool True, \<lparr>adjacency_list = [(1, [2]), (2, [])],
                       vertices = [(1, Some True), (2, None)]\<rparr>) \<and>
   graph_inv \<lparr>adjacency_list = [(1::nat, [2]), (2, [])],
              vertices = [(1, Some True), (2, None)]\<rparr> \<and>
   add_vertex \<lparr>adjacency_list = [(1::nat, []), (2, [])],
               vertices = [(1, Some True), (2, None)]\<rparr> 3 (Some False) =
     (True, \<lparr>adjacency_list = [(1, []), (2, []), (3, [])],
             vertices = [(1, Some True), (2, None), (3, Some False)]\<rparr>) \<and>
   \<not> vertex_exists \<lparr>adjacency_list = [(1::nat, []), (2, [])],
                    vertices = [(1, Some True), (2, None)]\<rparr> 7 \<and>
   add_edge \<lparr>adjacency_list = [(1::nat, []), (2, [])],
             vertices = [(1, Some True), (2, None)]\<rparr> 1 7 =
     Inr (False, \<lparr>adjacency_list = [(1, []), (2, [])],
                  vertices = [(1, Some True), (2, None)]\<rparr>)"
proof -
  let ?g = "\<lparr>adjacency_list = [(1::nat, []), (2, [])],
             vertices = [(1, Some True), (2, None)]\<rparr>"
  have inv: "graph_inv ?g" by (simp add: graph_inv_def dict_keys_def)
  have call: "graph_call ?g (AddEdge 1 2) =
     Inr (GBool True, \<lparr>adjacency_list = [(1, [2]), (2, [])],
                       vertices = [(1, Some True), (2, None)]\<rparr>)"
    by (simp add: add_edge_def dict_in_def dict_getitem_def pyset_add_def)
  have v: "add_vertex ?g 3 (Some False) =
     (True, \<lparr>adjacency_list = [(1, []), (2, []), (3, [])],
             vertices = [(1, Some True), (2, None), (3, Some False)]\<rparr>)"
    by (simp add: add_vertex_def dict_in_def)
  have ne: "\<not> vertex_exists ?g 7" by (simp add: vertex_exists_def dict_in_def)
  note all = graph_operations_keep_invariant [OF inv]
  from all call have inv': "graph_inv \<lparr>adjacency_list = [(1::nat, [2]), (2, [])],
              vertices = [(1, Some True), (2, None)]\<rparr>"
    by blast
  from all ne have e: "add_edge ?g 1 7 = Inr (False, ?g)" by blast
  from inv call inv' v ne e show ?thesis by (intro conjI)
qed

text \<open>
  C3. Every operation of the application keeps the users dictionary and the vertices of
  the graph in lock-step: an id is a key of the one if and only if it is a vertex of the
  other. \<open>add_user\<close> with a known id returns \<open>False\<close> and the state as it was; with a
  new id it returns \<open>True\<close> and has stored the profile in the users dictionary and as
  the payload of a new vertex. The initial state is in lock-step.
\<close>

theorem users_and_vertices_in_lockstep:
  assumes "lockstep s"
  shows "(\<forall>c r s'. app_call s c = Inr (r, s') \<longrightarrow> lockstep s') \<and>
         (\<forall>k. dict_in k (users s) \<longleftrightarrow> vertex_exists (graph s) k) \<and>
         (\<forall>p. dict_in (user_id p) (users s) \<longrightarrow> add_user s p = (False, s)) \<and>
         (\<forall>p. \<not> dict_in (user_id p) (users s) \<longrightarrow>
            (\<exists>s'. add_user s p = (True, s') \<and>
               users s' = dict_setitem (user_id p) p (users s) \<and>
               vertices (graph s') = dict_setitem (user_id p) (Some p) (vertices (graph s)) \<and>
               get_user s' (user_id p) = Some p \<and>
               get_vertex_data (graph s') (user_id p) = Some p)) \<and>
         lockstep SocialMediaApp_init"
proof (intro conjI allI impI)
  fix c r s' assume "app_call s c = Inr (r, s')"
  with assms show "lockstep s'" by (rule lockstep_app_call)
next
  fix k show "dict_in k (users s) \<longleftrightarrow> vertex_exists (graph s) k"
    using assms by (simp add: lockstep_iff)
next
  fix p :: Person assume "dict_in (user_id p) (users s)"
  then show "add_user s p = (False, s)" by (simp add: add_user_cases)
next
  fix p :: Person assume new: "\<not> dict_in (user_id p) (users s)"
  then have "\<not> dict_in (user_id p) (vertices (graph s))"
    using assms by (simp add: lockstep_iff vertex_exists_def)
  with new show "\<exists>s'. add_user s p = (True, s') \<and>
               users s' = dict_setitem (user_id p) p (users s) \<and>
               vertices (graph s') = dict_setitem (user_id p) (Some p) (vertices (graph s)) \<and>
               get_user s' (user_id p) = Some p \<and>
               get_vertex_data (graph s') (user_id p) = Some p"
    by (simp add: add_user_cases get_user_def get_vertex_data_def dict_get_def
        map_of_dict_setitem)
next
  show "lockstep SocialMediaApp_init" by (rule lockstep_init)
qed

theorem users_and_vertices_in_lockstep_witness:
  "lockstep scenario_app \<and> dict_in (user_id person_b) (users scenario_app) \<and>
   add_user scenario_app person_b = (False, scenario_app) \<and>
   lockstep (snd (add_user scenario_app (Person_init ''d'' ''Di'' [] [] PUBLIC None []))) \<and>
   fst (add_user scenario_app (Person_init ''d'' ''Di'' [] [] PUBLIC None []))"
proof -
  let ?d = "Person_init ''d'' ''Di'' [] [] PUBLIC None []"
  note all = users_and_vertices_in_lockstep [OF scenario_lockstep]
  have b: "dict_in (user_id person_b) (users scenario_app)"
    by (simp add: scenario_app_def person_b_def Person_init_def dict_in_def)
  have d: "\<not> dict_in (user_id ?d) (users scenario_app)"
    by (simp add: scenario_app_def Person_init_def dict_in_def)
  from all b have 1: "add_user scenario_app person_b = (False, scenario_app)" by blast
  from all d obtain s' where 2: "add_user scenario_app ?d = (True, s')" by blast
  then have "app_call scenario_app (AddUser ?d) = Inr (RBool True, s')" by simp
  with all have "lockstep s'" by blast
  with 2 have 3: "lockstep (snd (add_user scenario_app ?d))" "fst (add_user scenario_app ?d)"
    by simp_all
  from scenario_lockstep b 1 3 show ?thesis by (intro conjI)
qed

text \<open>
  C4. For an id that is new, \<open>add_vertex\<close> returns \<open>True\<close>; a second \<open>add_vertex\<close> with
  that id, whatever its payload, returns \<open>False\<close> and the graph of the first call, whose
  payload for the id is the first one. The same for \<open>add_user\<close> and two profiles with
  one id, in a state in lock-step.
\<close>

theorem first_write_wins:
  "(\<not> vertex_exists g k \<longrightarrow>
      (\<exists>g1. add_vertex g k d1 = (True, g1) \<and> add_vertex g1 k d2 = (False, g1) \<and>
         get_vertex_data g1 k = d1)) \<and>
   (lockstep s \<and> \<not> dict_in (user_id p1) (users s) \<and> user_id p2 = user_id p1 \<longrightarrow>
      (\<exists>s1. add_user s p1 = (True, s1) \<and> add_user s1 p2 = (False, s1) \<and>
         get_user s1 (user_id p1) = Some p1 \<and>
         get_vertex_data (graph s1) (user_id p1) = Some p1))"
proof (intro conjI impI)
  assume "\<not> vertex_exists g k"
  then show "\<exists>g1. add_vertex g k d1 = (True, g1) \<and> add_vertex g1 k d2 = (False, g1) \<and>
         get_vertex_data g1 k = d1"
    by (simp add: add_vertex_def vertex_exists_def dict_in_iff get_vertex_data_def
        dict_get_def map_of_dict_setitem split: option.splits)
next
  assume a: "lockstep s \<and> \<not> dict_in (user_id p1) (users s) \<and> user_id p2 = user_id p1"
  then have "\<not> dict_in (user_id p1) (vertices (graph s))"
    by (auto simp: lockstep_iff vertex_exists_def)
  with a show "\<exists>s1. add_user s p1 = (True, s1) \<and> add_user s1 p2 = (False, s1) \<and>
         get_user s1 (user_id p1) = Some p1 \<and>
         get_vertex_data (graph s1) (user_id p1) = Some p1"
    by (simp add: add_user_cases dict_in_iff get_user_def get_vertex_data_def
        dict_get_def map_of_dict_setitem)
qed

theorem first_write_wins_witness:
  "\<not> vertex_exists scenario_graph ''d'' \<and>
   (\<exists>g1. add_vertex scenario_graph ''d'' (Some person_a) = (True, g1) \<and>
      add_vertex g1 ''d'' (Some person_b) = (False, g1) \<and>
      get_vertex_data g1 ''d'' = Some person_a) \<and>
   lockstep SocialMediaApp_init \<and>
   \<not> dict_in (user_id person_a) (users SocialMediaApp_init) \<and>
   user_id (person_b\<lparr>user_id := ''a''\<rparr>) = user_id person_a \<and>
   (\<exists>s1. add_user SocialMediaApp_init person_a = (True, s1) \<and>
      add_user s1 (person_b\<lparr>user_id := ''a''\<rparr>) = (False, s1) \<and>
      get_user s1 (user_id person_a) = Some person_a)"
proof -
  have 1: "\<not> vertex_exists scenario_graph ''d''"
    by (simp add: vertex_exists_def scenario_graph_def dict_in_def)
  have 2: "\<not> dict_in (user_id person_a) (users SocialMediaApp_init)"
    by (simp add: SocialMediaApp_init_def dict_in_def)
  have 3: "user_id (person_b\<lparr>user_id := ''a''\<rparr>) = user_id person_a"
    by (simp add: person_a_def Person_init_def)
  note w = first_write_wins [of scenario_graph "''d''" "Some person_a" "Some person_b"
      SocialMediaApp_init person_a "person_b\<lparr>user_id := ''a''\<rparr>"]
  from w 1 have 4: "\<exists>g1. add_vertex scenario_graph ''d'' (Some person_a) = (True, g1) \<and>
      add_vertex g1 ''d'' (Some person_b) = (False, g1) \<and>
      get_vertex_data g1 ''d'' = Some person_a"
    by blast
  from w lockstep_init 2 3 have 5: "\<exists>s1. add_user SocialMediaApp_init person_a = (True, s1) \<and>
      add_user s1 (person_b\<lparr>user_id := ''a''\<rparr>) = (False, s1) \<and>
      get_user s1 (user_id person_a) = Some person_a"
    by blast
  from 1 4 lockstep_init 2 3 5 show ?thesis by (intro conjI)
qed

text \<open>
  C5. No operation raises. Every sequence of calls on a new graph, and every sequence of
  calls on a new application, returns: one result for each call, no \<open>KeyError\<close>. In the
  state reached, for an id \<open>k\<close> that is unknown, the lookups return the empty list or
  \<open>None\<close>, and the mutators that are given \<open>k\<close> return \<open>False\<close> and the state as it
  was.
\<close>

theorem no_operation_raises:
  "(\<exists>rs g. graph_calls DirectedGraph_init gcs = Inr (rs, g) \<and> length rs = length gcs \<and>
      (\<forall>k b. \<not> vertex_exists g k \<longrightarrow>
         list_outgoing_adjacent_vertices g k = Inr [] \<and>
         list_incoming_adjacent_vertices g k = [] \<and>
         get_vertex_data g k = None \<and>
         add_edge g k b = Inr (False, g) \<and> add_edge g b k = Inr (False, g) \<and>
         remove_edge g k b = Inr (False, g) \<and> remove_edge g b k = Inr (False, g))) \<and>
   (\<exists>rs s. app_calls SocialMediaApp_init cs = Inr (rs, s) \<and> length rs = length cs \<and>
      (\<forall>k b. \<not> dict_in k (users s) \<longrightarrow>
         get_following s k = Inr [] \<and> get_followers s k = [] \<and> get_user s k = None \<and>
         follow_user s k b = Inr (False, s) \<and> follow_user s b k = Inr (False, s) \<and>
         unfollow_user s k b = Inr (False, s) \<and> unfollow_user s b k = Inr (False, s)))"
proof
  from graph_calls_return [OF graph_inv_init, of gcs] obtain rs g where
    "graph_calls DirectedGraph_init gcs = Inr (rs, g)" "length rs = length gcs" by blast
  then show "\<exists>rs g. graph_calls DirectedGraph_init gcs = Inr (rs, g) \<and> length rs = length gcs \<and>
      (\<forall>k b. \<not> vertex_exists g k \<longrightarrow>
         list_outgoing_adjacent_vertices g k = Inr [] \<and>
         list_incoming_adjacent_vertices g k = [] \<and>
         get_vertex_data g k = None \<and>
         add_edge g k b = Inr (False, g) \<and> add_edge g b k = Inr (False, g) \<and>
         remove_edge g k b = Inr (False, g) \<and> remove_edge g b k = Inr (False, g))"
    using unknown_vertex_answers [of _ g] unfolding vertex_exists_def by blast
next
  have "graph_inv (graph SocialMediaApp_init)"
    using graph_inv_init by (simp add: SocialMediaApp_init_def)
  from app_calls_return [OF this lockstep_init, of cs] obtain rs s where
    "app_calls SocialMediaApp_init cs = Inr (rs, s)" "length rs = length cs" "lockstep s"
    by blast
  then show "\<exists>rs s. app_calls SocialMediaApp_init cs = Inr (rs, s) \<and> length rs = length cs \<and>
      (\<forall>k b. \<not> dict_in k (users s) \<longrightarrow>
         get_following s k = Inr [] \<and> get_followers s k = [] \<and> get_user s k = None \<and>
         follow_user s k b = Inr (False, s) \<and> follow_user s b k = Inr (False, s) \<and>
         unfollow_user s k b = Inr (False, s) \<and> unfollow_user s b k = Inr (False, s))"
    using unknown_user_answers [of s] by blast
qed

theorem no_operation_raises_witness:
  "\<not> dict_in ''zed'' (users scenario_app) \<and>
   get_following scenario_app ''zed'' = Inr [] \<and>
   get_followers scenario_app ''zed'' = [] \<and>
   get_user scenario_app ''zed'' = None \<and>
   follow_user scenario_app ''a'' ''zed'' = Inr (False, scenario_app) \<and>
   \<not> vertex_exists (DirectedGraph_init :: (nat, bool) DirectedGraph) 7 \<and>
   list_outgoing_adjacent_vertices (DirectedGraph_init :: (nat, bool) DirectedGraph) 7 = Inr []"
proof -
  have z: "\<not> dict_in ''zed'' (users scenario_app)"
    by (simp add: scenario_app_def dict_in_def)
  have v: "\<not> vertex_exists (DirectedGraph_init :: (nat, bool) DirectedGraph) 7"
    by (simp add: vertex_exists_def DirectedGraph_init_def dict_in_def)
  note all = no_operation_raises [of "[] :: (nat, bool) graph_op list" scenario_calls]
  from all have "\<forall>k b. \<not> dict_in k (users scenario_app) \<longrightarrow>
         get_following scenario_app k = Inr [] \<and> get_followers scenario_app k = [] \<and>
         get_user scenario_app k = None \<and>
         follow_user scenario_app k b = Inr (False, scenario_app) \<and>
         follow_user scenario_app b k = Inr (False, scenario_app) \<and>
         unfollow_user scenario_app k b = Inr (False, scenario_app) \<and>
         unfollow_user scenario_app b k = Inr (False, scenario_app)"
    unfolding scenario_run by simp
  with z have a: "get_following scenario_app ''zed'' = Inr []"
    "get_followers scenario_app ''zed'' = []" "get_user scenario_app ''zed'' = None"
    "follow_user scenario_app ''a'' ''zed'' = Inr (False, scenario_app)"
    by blast+
  from all v have g:
    "list_outgoing_adjacent_vertices (DirectedGraph_init :: (nat, bool) DirectedGraph) 7 = Inr []"
    by simp
  from z a v g show ?thesis by (intro conjI)
qed

text \<open>
  C6. After \<open>add_user\<close> has returned \<open>True\<close> for a profile made from the seven
  arguments of \<open>Person.__init__\<close>, \<open>get_user\<close> with its id returns a profile whose
  \<open>get_full_info\<close> has every argument under its key, the visibility as the string
  \<open>public\<close> or \<open>private\<close>, whichever visibility it is; and after any further calls that
  return, \<open>get_user\<close> still returns that profile.
\<close>

theorem profile_round_trip:
  assumes "add_user s (Person_init uid nm gd bio pr ag loc) = (True, s')"
  shows "\<exists>p. get_user s' uid = Some p \<and>
           get_full_info p =
             [(''user_id'', PStr uid),
              (''name'', PStr nm),
              (''gender'', PStr gd),
              (''biography'', PStr bio),
              (''privacy'', PStr (case pr of PUBLIC \<Rightarrow> ''public'' | PRIVATE \<Rightarrow> ''private'')),
              (''age'', (case ag of None \<Rightarrow> PNone | Some n \<Rightarrow> PInt n)),
              (''location'', PStr loc)] \<and>
           (\<forall>cs rs s''. app_calls s' cs = Inr (rs, s'') \<longrightarrow> get_user s'' uid = Some p)"
proof -
  let ?p = "Person_init uid nm gd bio pr ag loc"
  have uid: "user_id ?p = uid" by (simp add: Person_init_def)
  from assms have "users s' = dict_setitem uid ?p (users s)"
    by (auto simp: add_user_cases uid split: if_splits)
  then have stored: "map_of (users s') uid = Some ?p" by (simp add: map_of_dict_setitem)
  have info: "get_full_info ?p =
             [(''user_id'', PStr uid),
              (''name'', PStr nm),
              (''gender'', PStr gd),
              (''biography'', PStr bio),
              (''privacy'', PStr (case pr of PUBLIC \<Rightarrow> ''public'' | PRIVATE \<Rightarrow> ''private'')),
              (''age'', (case ag of None \<Rightarrow> PNone | Some n \<Rightarrow> PInt n)),
              (''location'', PStr loc)]"
    by (cases pr) (simp_all add: get_full_info_def Person_init_def py_optional_int_def)
  have later: "\<forall>cs rs s''. app_calls s' cs = Inr (rs, s'') \<longrightarrow> get_user s'' uid = Some ?p"
    using app_calls_keep_user [OF stored] by (simp add: get_user_def dict_get_def)
  from stored info later show ?thesis by (simp add: get_user_def dict_get_def)
qed

theorem profile_round_trip_witness:
  "fst (add_user SocialMediaApp_init
     (Person_init ''c'' ''Cy'' [] ''runs'' PRIVATE (Some 31) ''Rome'')) \<and>
   (\<exists>p. get_user (snd (add_user SocialMediaApp_init
            (Person_init ''c'' ''Cy'' [] ''runs'' PRIVATE (Some 31) ''Rome''))) ''c'' = Some p \<and>
      get_full_info p =
        [(''user_id'', PStr ''c''),
         (''name'', PStr ''Cy''),
         (''gender'', PStr []),
         (''biography'', PStr ''runs''),
         (''privacy'', PStr ''private''),
         (''age'', PInt 31),
         (''location'', PStr ''Rome'')])"
proof -
  let ?p = "Person_init ''c'' ''Cy'' [] ''runs'' PRIVATE (Some 31) ''Rome''"
  have t: "fst (add_user SocialMediaApp_init ?p)"
    by (simp add: add_user_cases SocialMediaApp_init_def DirectedGraph_init_def dict_in_def)
  then have "add_user SocialMediaApp_init ?p = (True, snd (add_user SocialMediaApp_init ?p))"
    by (cases "add_user SocialMediaApp_init ?p") simp
  from profile_round_trip [OF this] have "\<exists>p. get_user (snd (add_user SocialMediaApp_init ?p)) ''c'' = Some p \<and>
      get_full_info p =
        [(''user_id'', PStr ''c''),
         (''name'', PStr ''Cy''),
         (''gender'', PStr []),
         (''biography'', PStr ''runs''),
         (''privacy'', PStr ''private''),
         (''age'', PInt 31),
         (''location'', PStr ''Rome'')]"
    by simp blast
  with t show ?thesis by (intro conjI)
qed

text \<open>
  C7. When the edge \<open>(a, b)\<close> does not exist, also when \<open>a\<close> or \<open>b\<close> is unknown,
  \<open>unfollow_user\<close> returns \<open>False\<close> and the state it was given (graph and users).
  The state has the graph invariant, as every state the application reaches has
  (\<open>app_inv_reached\<close>).
\<close>

theorem unfollow_without_edge:
  assumes "graph_inv (graph s)" and "\<not> has_edge (graph s) a b"
  shows "unfollow_user s a b = Inr (False, s)"
proof -
  have "remove_edge (graph s) a b = Inr (False, graph s)"
    using graph_inv_keys [OF assms(1)] assms(2) by (rule remove_edge_no_edge)
  then show ?thesis by (simp add: unfollow_user_def)
qed

theorem unfollow_without_edge_witness:
  "graph_inv (graph scenario_app) \<and> \<not> has_edge (graph scenario_app) ''b'' ''a'' \<and>
   unfollow_user scenario_app ''b'' ''a'' = Inr (False, scenario_app) \<and>
   \<not> has_edge (graph scenario_app) ''a'' ''zed'' \<and>
   unfollow_user scenario_app ''a'' ''zed'' = Inr (False, scenario_app)"
proof -
  have inv: "graph_inv (graph scenario_app)"
    using scenario_graph_inv by (simp add: scenario_app_def)
  have no: "\<not> has_edge (graph scenario_app) ''b'' ''a''"
    by (simp add: scenario_app_def scenario_graph_def has_edge_def)
  have no': "\<not> has_edge (graph scenario_app) ''a'' ''zed''"
    by (simp add: scenario_app_def scenario_graph_def has_edge_def)
  from inv no no' unfollow_without_edge [OF inv no] unfollow_without_edge [OF inv no']
  show ?thesis by (intro conjI)
qed

text \<open>
  C8. For a user \<open>a\<close> with no edge \<open>(a, a)\<close>, \<open>follow_user s a a\<close> returns \<open>True\<close> and
  the self-loop is there: \<open>a\<close> is among its own outgoing and incoming neighbours.
  The state is in lock-step and has the graph invariant, as every state the application
  reaches (\<open>app_inv_reached\<close>).
\<close>

theorem self_follow_succeeds:
  assumes lock: "lockstep s" and inv: "graph_inv (graph s)"
    and user: "dict_in a (users s)" and no: "\<not> has_edge (graph s) a a"
  shows "\<exists>s'. follow_user s a a = Inr (True, s') \<and> has_edge (graph s') a a \<and>
           (\<exists>out. list_outgoing_adjacent_vertices (graph s') a = Inr out \<and> a \<in> set out) \<and>
           a \<in> set (list_incoming_adjacent_vertices (graph s') a)"
proof -
  have va: "dict_in a (vertices (graph s))"
    using lock user by (simp add: lockstep_def dict_in_def dict_keys_def get_all_vertices_def)
  then have "a \<in> set (map fst (adjacency_list (graph s)))"
    using graph_inv_keys [OF inv] by (simp only: dict_in_def)
  then obtain xs where xs: "map_of (adjacency_list (graph s)) a = Some xs"
    using dict_in_iff [of a "adjacency_list (graph s)"] by (auto simp: dict_in_def)
  with no have nx: "a \<notin> set xs" by (simp add: has_edge_def)
  let ?g' = "(graph s)\<lparr>adjacency_list := dict_setitem a (xs @ [a]) (adjacency_list (graph s))\<rparr>"
  have e: "add_edge (graph s) a a = Inr (True, ?g')"
    using va xs nx by (simp add: add_edge_def dict_getitem_def pyset_add_def)
  have f: "follow_user s a a = Inr (True, s\<lparr>graph := ?g'\<rparr>)"
    using user e by (simp add: follow_user_def)
  have edge: "has_edge ?g' a a" by (simp add: has_edge_setitem)
  have va': "dict_in a (vertices ?g')" using va by simp
  have "\<exists>out. list_outgoing_adjacent_vertices ?g' a = Inr out \<and> a \<in> set out"
    using va' edge by (rule outgoing_has_edge)
  moreover have "a \<in> set (list_incoming_adjacent_vertices ?g' a)"
    using va' edge by (rule has_edge_incoming)
  ultimately show ?thesis using f edge by simp
qed

theorem self_follow_succeeds_witness:
  "lockstep scenario_app \<and> graph_inv (graph scenario_app) \<and>
   dict_in ''c'' (users scenario_app) \<and> \<not> has_edge (graph scenario_app) ''c'' ''c'' \<and>
   (\<exists>s'. follow_user scenario_app ''c'' ''c'' = Inr (True, s') \<and>
      has_edge (graph s') ''c'' ''c'')"
proof -
  have inv: "graph_inv (graph scenario_app)"
    using scenario_graph_inv by (simp add: scenario_app_def)
  have user: "dict_in ''c'' (users scenario_app)"
    by (simp add: scenario_app_def dict_in_def)
  have no: "\<not> has_edge (graph scenario_app) ''c'' ''c''"
    by (simp add: scenario_app_def scenario_graph_def has_edge_def)
  have "\<exists>s'. follow_user scenario_app ''c'' ''c'' = Inr (True, s') \<and>
      has_edge (graph s') ''c'' ''c''"
    using self_follow_succeeds [OF scenario_lockstep inv user no] by blast
  with scenario_lockstep inv user no show ?thesis by (intro conjI)
qed

text \<open>
  C9. No method of the application reads the visibility. Take two states that are equal
  up to the visibility of their profiles (two new applications, for one) and two
  sequences of calls that are equal up to the visibility of the profiles they add. When
  the first run returns, so does the second; call by call they return the same booleans
  and the same user ids in the same order, the profiles returned are equal up to
  visibility, and so are the final states.
\<close>

theorem visibility_not_consulted:
  assumes states: "hide_app s1 = hide_app s2"
    and calls: "map hide_op cs1 = map hide_op cs2"
    and run: "app_calls s1 cs1 = Inr (rs1, t1)"
  shows "\<exists>rs2 t2. app_calls s2 cs2 = Inr (rs2, t2) \<and>
           map result_ids rs2 = map result_ids rs1 \<and>
           map hide_result rs2 = map hide_result rs1 \<and>
           hide_app t2 = hide_app t1"
proof -
  have "map_sum id (map_prod (map hide_result) hide_app) (app_calls s2 cs2) =
        map_sum id (map_prod (map hide_result) hide_app) (app_calls s1 cs1)"
    using states calls by (simp add: app_calls_hide [symmetric])
  with run have "map_sum id (map_prod (map hide_result) hide_app) (app_calls s2 cs2) =
        Inr (map hide_result rs1, hide_app t1)"
    by simp
  then obtain rs2 t2 where 2: "app_calls s2 cs2 = Inr (rs2, t2)"
    and r: "map hide_result rs2 = map hide_result rs1" and t: "hide_app t2 = hide_app t1"
    by (cases "app_calls s2 cs2") auto
  have "map result_ids (map hide_result rs2) = map result_ids (map hide_result rs1)"
    using r by simp
  then have "map result_ids rs2 = map result_ids rs1"
    by (simp add: comp_def result_ids_hide)
  with 2 r t show ?thesis by blast
qed

theorem visibility_not_consulted_witness:
  "hide_app SocialMediaApp_init = hide_app SocialMediaApp_init \<and>
   map hide_op scenario_calls =
     map hide_op [AddUser (person_a\<lparr>privacy := PRIVATE\<rparr>), AddUser (person_b\<lparr>privacy := PUBLIC\<rparr>),
       AddUser person_c, FollowUser ''a'' ''b'', FollowUser ''a'' ''c''] \<and>
   app_calls SocialMediaApp_init scenario_calls = Inr (replicate 5 (RBool True), scenario_app) \<and>
   (\<exists>rs2 t2.
      app_calls SocialMediaApp_init
        [AddUser (person_a\<lparr>privacy := PRIVATE\<rparr>), AddUser (person_b\<lparr>privacy := PUBLIC\<rparr>),
         AddUser person_c, FollowUser ''a'' ''b'', FollowUser ''a'' ''c''] = Inr (rs2, t2) \<and>
      map result_ids rs2 = map result_ids (replicate 5 (RBool True)) \<and>
      hide_app t2 = hide_app scenario_app)"
proof -
  let ?cs = "[AddUser (person_a\<lparr>privacy := PRIVATE\<rparr>), AddUser (person_b\<lparr>privacy := PUBLIC\<rparr>),
       AddUser person_c, FollowUser ''a'' ''b'', FollowUser ''a'' ''c'']"
  have calls: "map hide_op scenario_calls = map hide_op ?cs"
    by (simp add: scenario_calls_def hide_privacy_def)
  have "\<exists>rs2 t2. app_calls SocialMediaApp_init ?cs = Inr (rs2, t2) \<and>
      map result_ids rs2 = map result_ids (replicate 5 (RBool True)) \<and>
      hide_app t2 = hide_app scenario_app"
    using visibility_not_consulted [OF refl calls scenario_run] by blast
  with calls scenario_run show ?thesis by (intro conjI refl)
qed

text \<open>
  C10. A successful \<open>unfollow_user s a b\<close> leaves the users, the vertices and the keys
  of the adjacency dictionary as they were, and every adjacency set but that of \<open>a\<close>;
  the set of \<open>a\<close> had \<open>b\<close> and is now the same set without \<open>b\<close>.
\<close>

theorem unfollow_frame:
  assumes "unfollow_user s a b = Inr (True, s')"
  shows "users s' = users s \<and>
         vertices (graph s') = vertices (graph s) \<and>
         dict_keys (adjacency_list (graph s')) = dict_keys (adjacency_list (graph s)) \<and>
         (\<forall>k. k \<noteq> a \<longrightarrow>
            dict_get (adjacency_list (graph s')) k = dict_get (adjacency_list (graph s)) k) \<and>
         (\<exists>adjacents adjacents'.
            dict_get (adjacency_list (graph s)) a = Some adjacents \<and>
            dict_get (adjacency_list (graph s')) a = Some adjacents' \<and>
            b \<in> set adjacents \<and> set adjacents' = set adjacents - {b})"
proof -
  from assms obtain g' where r: "remove_edge (graph s) a b = Inr (True, g')"
    and s': "s' = s\<lparr>graph := g'\<rparr>"
    by (auto simp: unfollow_user_Inr)
  from remove_edge_True [OF r] obtain adjacents where
    m: "map_of (adjacency_list (graph s)) a = Some adjacents" and b: "b \<in> set adjacents" and
    g': "g' = (graph s)\<lparr>adjacency_list :=
            dict_setitem a (removeAll b adjacents) (adjacency_list (graph s))\<rparr>"
    by blast
  have a: "a \<in> set (map fst (adjacency_list (graph s)))"
    using m dict_in_iff [of a "adjacency_list (graph s)"] by (simp add: dict_in_def)
  have keys: "dict_keys (adjacency_list (graph s')) = dict_keys (adjacency_list (graph s))"
    using a by (simp add: s' g' dict_keys_def keys_list_dict_setitem del: set_map)
  have others: "\<forall>k. k \<noteq> a \<longrightarrow>
      dict_get (adjacency_list (graph s')) k = dict_get (adjacency_list (graph s)) k"
    by (simp add: s' g' dict_get_def map_of_dict_setitem)
  have mine: "dict_get (adjacency_list (graph s')) a = Some (removeAll b adjacents)"
    by (simp add: s' g' dict_get_def map_of_dict_setitem)
  have "set (removeAll b adjacents) = set adjacents - {b}" by simp
  with m b mine have "\<exists>adjacents adjacents'.
            dict_get (adjacency_list (graph s)) a = Some adjacents \<and>
            dict_get (adjacency_list (graph s')) a = Some adjacents' \<and>
            b \<in> set adjacents \<and> set adjacents' = set adjacents - {b}"
    unfolding dict_get_def by blast
  moreover have "users s' = users s" by (simp add: s')
  moreover have "vertices (graph s') = vertices (graph s)" by (simp add: s' g')
  ultimately show ?thesis using keys others by blast
qed

theorem unfollow_frame_witness:
  "unfollow_user scenario_app ''a'' ''b'' =
     Inr (True, scenario_app\<lparr>graph := scenario_graph\<lparr>adjacency_list :=
       [(''a'', [''c'']), (''b'', []), (''c'', [])]\<rparr>\<rparr>) \<and>
   users (scenario_app\<lparr>graph := scenario_graph\<lparr>adjacency_list :=
       [(''a'', [''c'']), (''b'', []), (''c'', [])]\<rparr>\<rparr>) = users scenario_app \<and>
   dict_get (adjacency_list (graph scenario_app)) ''a'' = Some [''b'', ''c''] \<and>
   dict_get [(''a'', [''c'']), (''b'', []), (''c'', [])] ''a'' = Some [''c'']"
proof -
  let ?s' = "scenario_app\<lparr>graph := scenario_graph\<lparr>adjacency_list :=
       [(''a'', [''c'']), (''b'', []), (''c'', [])]\<rparr>\<rparr>"
  have call: "unfollow_user scenario_app ''a'' ''b'' = Inr (True, ?s')"
    by (simp add: unfollow_user_def remove_edge_def scenario_app_def scenario_graph_def
        dict_in_def dict_getitem_def pyset_remove_def)
  have "users ?s' = users scenario_app" using unfollow_frame [OF call] by blast
  moreover have "dict_get (adjacency_list (graph scenario_app)) ''a'' = Some [''b'', ''c'']"
    by (simp add: dict_get_def scenario_app_def scenario_graph_def)
  moreover have "dict_get [(''a'', [''c'']), (''b'', []), (''c'', [])] ''a'' = Some [''c'']"
    by (simp add: dict_get_def)
  ultimately show ?thesis using call by (intro conjI)
qed

end
